theory Spec2Isabelle
  imports Main
begin

section \<open>Values of the agent: JSON documents and Python exceptions\<close>

text \<open>
  The agent (two versions of \<^verbatim>\<open>wiktac_agent.py\<close>: \<^verbatim>\<open>agent/\<close>, version 0.1.1, and
  \<^verbatim>\<open>image-src/\<close>, version 0.1.2) only handles values that come out of a JSON or YAML
  parser: the state document, the container list of the Docker proxy and the allowlist.
  A Python \<^verbatim>\<open>dict\<close> with string keys is an association list in insertion order. A
  number is an \<^verbatim>\<open>int\<close> or a \<^verbatim>\<open>float\<close>; \<^verbatim>\<open>json.loads\<close> also returns the floats \<^verbatim>\<open>nan\<close>,
  \<^verbatim>\<open>inf\<close> and \<^verbatim>\<open>-inf\<close> (for \<^verbatim>\<open>NaN\<close>, \<^verbatim>\<open>Infinity\<close>, \<^verbatim>\<open>-Infinity\<close> and for literals out of the
  range of a double, such as \<^verbatim>\<open>1e400\<close>). A finite float is a mantissa and a binary exponent.
\<close>

datatype pyfloat = Finite int int | NaN | PosInf | NegInf

datatype json =
    JNull
  | JBool bool
  | JNum int
  | JStr string
  | JArr "json list"
  | JObj "(string \<times> json) list"
  | JFloat pyfloat

type_synonym dict = "(string \<times> json) list"

text \<open>
  Every exception of the source is an \<open>Exception\<close>; the constructor is its class, the
  string its \<^verbatim>\<open>str(e)\<close> (the wording of the interpreter's own messages is CPython's).
  \<open>HTTPError\<close> stands for whatever the request to the Docker proxy raises (transport
  failure, time-out, \<^verbatim>\<open>raise_for_status\<close>, a body that is not JSON).
\<close>

datatype error =
    KeyError string
  | IndexError string
  | TypeError string
  | AttributeError string
  | HTTPError string
  | RuntimeError string
  | ValidationError string
  | OSError string
  | ValueError string

fun str_of_error :: "error \<Rightarrow> string" where
  "str_of_error (KeyError m) = m"
| "str_of_error (IndexError m) = m"
| "str_of_error (TypeError m) = m"
| "str_of_error (AttributeError m) = m"
| "str_of_error (HTTPError m) = m"
| "str_of_error (RuntimeError m) = m"
| "str_of_error (ValidationError m) = m"
| "str_of_error (OSError m) = m"
| "str_of_error (ValueError m) = m"

fun type_name :: "json \<Rightarrow> string" where
  "type_name JNull = ''NoneType''"
| "type_name (JBool b) = ''bool''"
| "type_name (JNum n) = ''int''"
| "type_name (JStr s) = ''str''"
| "type_name (JArr xs) = ''list''"
| "type_name (JObj kvs) = ''dict''"
| "type_name (JFloat x) = ''float''"

definition no_attribute :: "json \<Rightarrow> string \<Rightarrow> error" where
  "no_attribute v a =
     AttributeError ([CHR 0x27] @ type_name v @ [CHR 0x27] @ '' object has no attribute '' @
                     [CHR 0x27] @ a @ [CHR 0x27])"

definition not_subscriptable :: "json \<Rightarrow> error" where
  "not_subscriptable v =
     TypeError ([CHR 0x27] @ type_name v @ [CHR 0x27] @ '' object is not subscriptable'')"

text \<open>Python's truth value of a JSON value, as \<^verbatim>\<open>or\<close> and \<^verbatim>\<open>not\<close> test it.\<close>

fun truthy :: "json \<Rightarrow> bool" where
  "truthy JNull = False"
| "truthy (JBool b) = b"
| "truthy (JNum n) = (n \<noteq> 0)"
| "truthy (JStr s) = (s \<noteq> [])"
| "truthy (JArr xs) = (xs \<noteq> [])"
| "truthy (JObj kvs) = (kvs \<noteq> [])"
| "truthy (JFloat (Finite m e)) = (m \<noteq> 0)"
| "truthy (JFloat x) = True"

definition py_or :: "json \<Rightarrow> json \<Rightarrow> json" where
  "py_or a b = (if truthy a then a else b)"

text \<open>\<^verbatim>\<open>d.get(k)\<close>: the value, or \<^verbatim>\<open>None\<close> when the key is missing.\<close>

definition dict_get :: "dict \<Rightarrow> string \<Rightarrow> json" where
  "dict_get d k = (case map_of d k of None \<Rightarrow> JNull | Some v \<Rightarrow> v)"

text \<open>\<^verbatim>\<open>d[k] = v\<close>: replaces the value in place, or appends a new key at the end.\<close>

fun dict_set :: "dict \<Rightarrow> string \<Rightarrow> json \<Rightarrow> dict" where
  "dict_set [] k v = [(k, v)]"
| "dict_set (p # ps) k v = (if fst p = k then (k, v) # ps else p # dict_set ps k v)"

text \<open>
  \<^verbatim>\<open>str.lower()\<close> on ASCII text (Docker's names, image references and states are ASCII),
  and the substring test \<^verbatim>\<open>k in s\<close>.
\<close>

definition lower_char :: "char \<Rightarrow> char" where
  "lower_char c =
     (case map_of (zip ''ABCDEFGHIJKLMNOPQRSTUVWXYZ'' ''abcdefghijklmnopqrstuvwxyz'') c of
        None \<Rightarrow> c
      | Some d \<Rightarrow> d)"

definition lower :: "string \<Rightarrow> string" where
  "lower s = map lower_char s"

fun starts_with :: "string \<Rightarrow> string \<Rightarrow> bool" where
  "starts_with [] s = True"
| "starts_with (k # ks) [] = False"
| "starts_with (k # ks) (c # cs) = (k = c \<and> starts_with ks cs)"

fun contains :: "string \<Rightarrow> string \<Rightarrow> bool" where
  "contains k [] = (k = [])"
| "contains k (c # cs) = (starts_with k (c # cs) \<or> contains k cs)"

text \<open>\<^verbatim>\<open>x[0]\<close> and \<^verbatim>\<open>x.lower()\<close> on an arbitrary JSON value.\<close>

fun subscript0 :: "json \<Rightarrow> error + json" where
  "subscript0 (JArr []) = Inl (IndexError ''list index out of range'')"
| "subscript0 (JArr (x # xs)) = Inr x"
| "subscript0 (JStr []) = Inl (IndexError ''string index out of range'')"
| "subscript0 (JStr (c # cs)) = Inr (JStr [c])"
| "subscript0 (JObj kvs) = Inl (KeyError ''0'')"
| "subscript0 v = Inl (not_subscriptable v)"

fun str_lower :: "json \<Rightarrow> error + string" where
  "str_lower (JStr s) = Inr (lower s)"
| "str_lower v = Inl (no_attribute v ''lower'')"

section \<open>classify\<close>

text \<open>
  \<^verbatim>\<open>name = (c.get("Names") or [""])[0].lower()\<close> and
  \<^verbatim>\<open>img = (c.get("Image") or "").lower()\<close>.
\<close>

definition container_name :: "dict \<Rightarrow> error + string" where
  "container_name c =
     (case subscript0 (py_or (dict_get c ''Names'') (JArr [JStr ''''])) of
        Inl e \<Rightarrow> Inl e
      | Inr x \<Rightarrow> str_lower x)"

definition container_image :: "dict \<Rightarrow> error + string" where
  "container_image c = str_lower (py_or (dict_get c ''Image'') (JStr ''''))"

text \<open>
  The inner function \<^verbatim>\<open>pick\<close>: the loop over the containers returns at the first match;
  the name is computed before the image, and an exception of either leaves the loop.
\<close>

fun pick :: "string list \<Rightarrow> dict list \<Rightarrow> error + dict option" where
  "pick keys [] = Inr None"
| "pick keys (c # cs) =
     (case container_name c of
        Inl e \<Rightarrow> Inl e
      | Inr name \<Rightarrow>
          (case container_image c of
             Inl e \<Rightarrow> Inl e
           | Inr img \<Rightarrow>
               if list_ex (\<lambda>k. contains k name) keys \<or> list_ex (\<lambda>k. contains k img) keys
               then Inr (Some c)
               else pick keys cs))"

definition btc_keys :: "string list" where
  "btc_keys = [''bitcoin'', ''bitcoind'', ''bitcoin-node'']"

definition bch_keys :: "string list" where
  "bch_keys = [''bch'', ''bitcoincash'', ''bitcoin-cash'', ''bchn'']"

definition dgb_keys :: "string list" where
  "dgb_keys = [''digibyte'', ''dgb'']"

definition miningcore_keys :: "string list" where
  "miningcore_keys = [''miningcore'']"

type_synonym roles = "(string \<times> dict option) list"

text \<open>The dictionary display evaluates the four picks in this order.\<close>

definition classify :: "dict list \<Rightarrow> error + roles" where
  "classify containers =
     (case pick btc_keys containers of
        Inl e \<Rightarrow> Inl e
      | Inr b \<Rightarrow>
     (case pick bch_keys containers of
        Inl e \<Rightarrow> Inl e
      | Inr h \<Rightarrow>
     (case pick dgb_keys containers of
        Inl e \<Rightarrow> Inl e
      | Inr d \<Rightarrow>
     (case pick miningcore_keys containers of
        Inl e \<Rightarrow> Inl e
      | Inr m \<Rightarrow>
          Inr [(''btc'', b), (''bch'', h), (''dgb'', d), (''miningcore'', m)]))))"

text \<open>\<^verbatim>\<open>roles.get(k)\<close>.\<close>

definition role_get :: "roles \<Rightarrow> string \<Rightarrow> dict option" where
  "role_get rs k = (case map_of rs k of None \<Rightarrow> None | Some v \<Rightarrow> v)"

subsection \<open>The classifier as the specification words it\<close>

text \<open>
  A container as Docker's \<^verbatim>\<open>GET /containers/json\<close> describes it: \<^verbatim>\<open>Names\<close> is a list of
  strings, \<^verbatim>\<open>Image\<close> a string, and either may be missing or null.
\<close>

fun is_str :: "json \<Rightarrow> bool" where
  "is_str (JStr s) = True"
| "is_str v = False"

fun names_shaped :: "json \<Rightarrow> bool" where
  "names_shaped JNull = True"
| "names_shaped (JArr xs) = list_all is_str xs"
| "names_shaped v = False"

fun image_shaped :: "json \<Rightarrow> bool" where
  "image_shaped JNull = True"
| "image_shaped (JStr s) = True"
| "image_shaped v = False"

definition docker_shaped :: "dict \<Rightarrow> bool" where
  "docker_shaped c = (names_shaped (dict_get c ''Names'') \<and> image_shaped (dict_get c ''Image''))"

text \<open>
  The first \<^verbatim>\<open>Names\<close> entry and the image, lower-cased; the empty string stands for a
  container that has none.
\<close>

fun first_name_lower :: "json \<Rightarrow> string" where
  "first_name_lower (JArr (JStr n # ns)) = lower n"
| "first_name_lower v = ''''"

fun image_lower :: "json \<Rightarrow> string" where
  "image_lower (JStr i) = lower i"
| "image_lower v = ''''"

definition role_match :: "string list \<Rightarrow> dict \<Rightarrow> bool" where
  "role_match keys c =
     (list_ex (\<lambda>k. contains k (first_name_lower (dict_get c ''Names''))) keys \<or>
      list_ex (\<lambda>k. contains k (image_lower (dict_get c ''Image''))) keys)"

definition spec_classify :: "dict list \<Rightarrow> roles" where
  "spec_classify cs =
     [(''btc'', find (role_match btc_keys) cs),
      (''bch'', find (role_match bch_keys) cs),
      (''dgb'', find (role_match dgb_keys) cs),
      (''miningcore'', find (role_match miningcore_keys) cs)]"

section \<open>The bounded logs\<close>

text \<open>
  \<^verbatim>\<open>push\<close> (version 0.1.1), \<^verbatim>\<open>action_log\<close> and \<^verbatim>\<open>alert\<close> (version 0.1.2) share one
  body: \<^verbatim>\<open>state.setdefault(key, [])\<close>, \<^verbatim>\<open>state[key].append(item)\<close>,
  \<^verbatim>\<open>state[key] = state[key][-200:]\<close>. \<open>setdefault\<close> raises on a state that is not a
  dictionary and \<open>append\<close> on an entry that is not a list; in both cases nothing has been
  changed yet, so the caller goes on with the state it had. The time stamp \<open>ts\<close> is
  what \<^verbatim>\<open>int(time.time())\<close> reads.
\<close>

definition py_repr :: "string \<Rightarrow> string" where
  "py_repr s = [CHR 0x27] @ s @ [CHR 0x27]"

definition setdefault :: "json \<Rightarrow> string \<Rightarrow> json \<Rightarrow> error + dict" where
  "setdefault state key dflt =
     (case state of
        JObj d \<Rightarrow> (case map_of d key of None \<Rightarrow> Inr (dict_set d key dflt) | Some v \<Rightarrow> Inr d)
      | v \<Rightarrow> Inl (no_attribute v ''setdefault''))"

definition last_200 :: "'a list \<Rightarrow> 'a list" where
  "last_200 xs = drop (length xs - 200) xs"

definition append_and_trim :: "dict \<Rightarrow> string \<Rightarrow> json \<Rightarrow> error + json" where
  "append_and_trim d key item =
     (case map_of d key of
        None \<Rightarrow> Inl (KeyError (py_repr key))
      | Some (JArr xs) \<Rightarrow> Inr (JObj (dict_set d key (JArr (last_200 (xs @ [item])))))
      | Some v \<Rightarrow> Inl (no_attribute v ''append''))"

definition push :: "json \<Rightarrow> string \<Rightarrow> json \<Rightarrow> error + json" where
  "push state key item =
     (case setdefault state key (JArr []) of
        Inl e \<Rightarrow> Inl e
      | Inr d \<Rightarrow> append_and_trim d key item)"

definition action_log :: "json \<Rightarrow> int \<Rightarrow> string \<Rightarrow> json \<Rightarrow> error + json" where
  "action_log state ts kind details =
     (case setdefault state ''actions'' (JArr []) of
        Inl e \<Rightarrow> Inl e
      | Inr d \<Rightarrow>
          append_and_trim d ''actions''
            (JObj [(''ts'', JNum ts), (''kind'', JStr kind), (''details'', details)]))"

definition alert :: "json \<Rightarrow> int \<Rightarrow> string \<Rightarrow> string \<Rightarrow> json \<Rightarrow> error + json" where
  "alert state ts level msg meta =
     (case setdefault state ''alerts'' (JArr []) of
        Inl e \<Rightarrow> Inl e
      | Inr d \<Rightarrow>
          append_and_trim d ''alerts''
            (JObj [(''ts'', JNum ts), (''level'', JStr level), (''msg'', JStr msg),
                   (''meta'', py_or meta (JObj []))]))"

datatype log_call =
    Push string json
  | Action_log int string json
  | Alert int string string json

fun call_key :: "log_call \<Rightarrow> string" where
  "call_key (Push key item) = key"
| "call_key (Action_log ts kind details) = ''actions''"
| "call_key (Alert ts level msg meta) = ''alerts''"

fun call_item :: "log_call \<Rightarrow> json" where
  "call_item (Push key item) = item"
| "call_item (Action_log ts kind details) =
     JObj [(''ts'', JNum ts), (''kind'', JStr kind), (''details'', details)]"
| "call_item (Alert ts level msg meta) =
     JObj [(''ts'', JNum ts), (''level'', JStr level), (''msg'', JStr msg),
           (''meta'', py_or meta (JObj []))]"

fun do_call :: "json \<Rightarrow> log_call \<Rightarrow> error + json" where
  "do_call s (Push key item) = push s key item"
| "do_call s (Action_log ts kind details) = action_log s ts kind details"
| "do_call s (Alert ts level msg meta) = alert s ts level msg meta"

fun do_calls :: "json \<Rightarrow> log_call list \<Rightarrow> error + json" where
  "do_calls s [] = Inr s"
| "do_calls s (c # cs) = (case do_call s c of Inl e \<Rightarrow> Inl e | Inr s' \<Rightarrow> do_calls s' cs)"

fun lookup :: "json \<Rightarrow> string \<Rightarrow> json option" where
  "lookup (JObj d) k = map_of d k"
| "lookup v k = None"

definition entries :: "json \<Rightarrow> string \<Rightarrow> json list" where
  "entries s key = (case lookup s key of Some (JArr xs) \<Rightarrow> xs | _ \<Rightarrow> [])"

definition log_ok :: "json \<Rightarrow> string \<Rightarrow> bool" where
  "log_ok s key =
     (case s of
        JObj d \<Rightarrow> (case map_of d key of None \<Rightarrow> True | Some (JArr xs) \<Rightarrow> True | Some v \<Rightarrow> False)
      | v \<Rightarrow> False)"

definition bounded :: "json \<Rightarrow> bool" where
  "bounded s = (length (entries s ''actions'') \<le> 200 \<and> length (entries s ''alerts'') \<le> 200)"

section \<open>The files and the HTTP surface\<close>

text \<open>
  A file of \<^verbatim>\<open>/data\<close> is storage: it is absent, or it holds text that cannot be read
  back (\<open>Garbage\<close>: reading or parsing raises), or it holds a document. Writing a
  document and parsing it back gives the document (\<^verbatim>\<open>json.dumps\<close> / \<^verbatim>\<open>json.loads\<close>,
  \<^verbatim>\<open>yaml.safe_dump\<close> / \<^verbatim>\<open>yaml.safe_load\<close>); writes themselves do not fail.
\<close>

datatype stored = Absent | Garbage | Parsed json

record fs =
  allowlist_file :: stored
  state_file :: stored

text \<open>
  \<^verbatim>\<open>load_state\<close>: the default when the file is absent, the default when reading or
  parsing raises, and otherwise whatever \<^verbatim>\<open>json.loads\<close> returned.
\<close>

definition default_state :: json where
  "default_state =
     JObj [(''last_run'', JNull), (''intel'', JObj []), (''actions'', JArr []), (''alerts'', JArr [])]"

fun load_state :: "stored \<Rightarrow> json" where
  "load_state Absent = default_state"
| "load_state Garbage = default_state"
| "load_state (Parsed j) = j"

definition save_state :: "json \<Rightarrow> fs \<Rightarrow> fs" where
  "save_state s f = f\<lparr>state_file := Parsed s\<rparr>"

text \<open>
  \<^verbatim>\<open>load_state\<close> as a whole. Its first statement, \<^verbatim>\<open>STATE_PATH.exists()\<close>, stands before the
  \<^verbatim>\<open>try\<close> block: the test answers \<^verbatim>\<open>False\<close> for a path that is not there, and raises the
  \<open>OSError\<close> of \<^verbatim>\<open>stat\<close> otherwise (a \<^verbatim>\<open>/data\<close> that may not be searched, say), and that
  exception escapes \<^verbatim>\<open>load_state\<close>. \<open>load_state_call\<close> is the call given the outcome of the
  test; \<open>load_state\<close> is the rest of the function, on a path whose test returns, which is
  what the ticks and the endpoints above are written on.
\<close>

datatype located = Stat_raises error | Located stored

definition load_state_call :: "located \<Rightarrow> error + json" where
  "load_state_call p = (case p of Stat_raises e \<Rightarrow> Inl e | Located st \<Rightarrow> Inr (load_state st))"

text \<open>
  \<^verbatim>\<open>GET /api/state\<close> returns what \<^verbatim>\<open>load_state\<close> returns, and the framework encodes it as
  the response with \<^verbatim>\<open>json.dumps(..., allow_nan=False)\<close>, which raises \<open>ValueError\<close> on a
  \<^verbatim>\<open>nan\<close> or an infinity anywhere in the document.
\<close>

fun finite_float :: "pyfloat \<Rightarrow> bool" where
  "finite_float (Finite m e) = True"
| "finite_float x = False"

fun finite_doc :: "json \<Rightarrow> bool" where
  "finite_doc (JFloat x) = finite_float x"
| "finite_doc (JArr xs) = list_all finite_doc xs"
| "finite_doc (JObj kvs) = list_all (\<lambda>p. finite_doc (snd p)) kvs"
| "finite_doc v = True"

definition render :: "json \<Rightarrow> error + json" where
  "render d =
     (if finite_doc d then Inr d
      else Inl (ValueError ''Out of range float values are not JSON compliant''))"

definition api_state :: "located \<Rightarrow> error + json" where
  "api_state p = (case load_state_call p of Inl e \<Rightarrow> Inl e | Inr d \<Rightarrow> render d)"

text \<open>
  The shape of a state document: the four keys of the default state, with a dictionary
  under \<^verbatim>\<open>intel\<close> and lists under \<^verbatim>\<open>actions\<close> and \<^verbatim>\<open>alerts\<close>.
\<close>

fun is_list :: "json option \<Rightarrow> bool" where
  "is_list (Some (JArr xs)) = True"
| "is_list v = False"

fun is_dict :: "json option \<Rightarrow> bool" where
  "is_dict (Some (JObj d)) = True"
| "is_dict v = False"

definition state_shaped :: "json \<Rightarrow> bool" where
  "state_shaped s =
     (lookup s ''last_run'' \<noteq> None \<and> is_dict (lookup s ''intel'') \<and>
      is_list (lookup s ''actions'') \<and> is_list (lookup s ''alerts''))"

text \<open>
  \<^verbatim>\<open>docker_restart\<close>: the argument is what the POST gives, an exception of the HTTP
  client or a response (status code and text). The two versions differ in the message.
\<close>

fun dec :: "nat \<Rightarrow> string" where
  "dec n = (if n < 10 then [''0123456789'' ! n]
            else dec (n div 10) @ [''0123456789'' ! (n mod 10)])"

type_synonym response = "nat \<times> string"

definition docker_restart :: "error + response \<Rightarrow> error + unit" where
  "docker_restart reply =
     (case reply of
        Inl e \<Rightarrow> Inl e
      | Inr (status_code, text) \<Rightarrow>
          if status_code \<noteq> 204 \<and> status_code \<noteq> 304
          then Inl (RuntimeError (''Restart failed: '' @ dec status_code @ '' '' @ text))
          else Inr ())"

definition docker_restart_v1 :: "error + response \<Rightarrow> error + unit" where
  "docker_restart_v1 reply =
     (case reply of
        Inl e \<Rightarrow> Inl e
      | Inr (status_code, text) \<Rightarrow>
          if status_code \<noteq> 204 \<and> status_code \<noteq> 304
          then Inl (RuntimeError (''restart failed: '' @ dec status_code @ '' '' @ text))
          else Inr ())"

text \<open>
  The \<^verbatim>\<open>Allowlist\<close> model: three fields of type \<^verbatim>\<open>Dict[str, List[str]]\<close>, each with the
  default \<^verbatim>\<open>{"allowed_addresses": []}\<close>. Validation takes a dictionary, ignores other
  keys, fills in a missing field with its default and refuses a field that is not a
  dictionary of lists of strings.
\<close>

record allowlist =
  btc :: "(string \<times> string list) list"
  bch :: "(string \<times> string list) list"
  dgb :: "(string \<times> string list) list"

definition default_field :: "(string \<times> string list) list" where
  "default_field = [(''allowed_addresses'', [])]"

definition default_allowlist :: allowlist where
  "default_allowlist = \<lparr>btc = default_field, bch = default_field, dgb = default_field\<rparr>"

fun str_list :: "json list \<Rightarrow> string list option" where
  "str_list [] = Some []"
| "str_list (JStr s # vs) = (case str_list vs of None \<Rightarrow> None | Some ss \<Rightarrow> Some (s # ss))"
| "str_list (v # vs) = None"

fun validate_entries :: "dict \<Rightarrow> (string \<times> string list) list option" where
  "validate_entries [] = Some []"
| "validate_entries ((k, JArr vs) # kvs) =
     (case str_list vs of
        None \<Rightarrow> None
      | Some ss \<Rightarrow> (case validate_entries kvs of None \<Rightarrow> None | Some es \<Rightarrow> Some ((k, ss) # es)))"
| "validate_entries ((k, v) # kvs) = None"

fun validate_field :: "json option \<Rightarrow> (string \<times> string list) list option" where
  "validate_field None = Some default_field"
| "validate_field (Some (JObj kvs)) = validate_entries kvs"
| "validate_field (Some v) = None"

definition model_validate :: "json \<Rightarrow> error + allowlist" where
  "model_validate payload =
     (case payload of
        JObj d \<Rightarrow>
          (case (validate_field (map_of d ''btc''), validate_field (map_of d ''bch''),
                 validate_field (map_of d ''dgb'')) of
             (Some b, Some h, Some g) \<Rightarrow> Inr \<lparr>btc = b, bch = h, dgb = g\<rparr>
           | _ \<Rightarrow> Inl (ValidationError ''validation error for Allowlist''))
      | v \<Rightarrow> Inl (ValidationError ''validation error for Allowlist''))"

definition dump_field :: "(string \<times> string list) list \<Rightarrow> json" where
  "dump_field es = JObj (map (\<lambda>(k, ss). (k, JArr (map JStr ss))) es)"

definition model_dump :: "allowlist \<Rightarrow> json" where
  "model_dump a =
     JObj [(''btc'', dump_field (btc a)), (''bch'', dump_field (bch a)), (''dgb'', dump_field (dgb a))]"

fun load_allowlist :: "stored \<Rightarrow> allowlist" where
  "load_allowlist Absent = default_allowlist"
| "load_allowlist Garbage = default_allowlist"
| "load_allowlist (Parsed data) =
     (case model_validate (py_or data (JObj [])) of
        Inl e \<Rightarrow> default_allowlist
      | Inr a \<Rightarrow> a)"

definition save_allowlist :: "allowlist \<Rightarrow> fs \<Rightarrow> fs" where
  "save_allowlist a f = f\<lparr>allowlist_file := Parsed (model_dump a)\<rparr>"

definition api_allowlist :: "fs \<Rightarrow> json" where
  "api_allowlist f = model_dump (load_allowlist (allowlist_file f))"

definition api_set_allowlist_v1 :: "json \<Rightarrow> fs \<Rightarrow> (error + json) \<times> fs" where
  "api_set_allowlist_v1 payload f =
     (case model_validate payload of
        Inl e \<Rightarrow> (Inl e, f)
      | Inr a \<Rightarrow> (Inr (JObj [(''ok'', JBool True)]), save_allowlist a f))"

definition address_count :: "(string \<times> string list) list \<Rightarrow> json" where
  "address_count es =
     JNum (int (length (case map_of es ''allowed_addresses'' of None \<Rightarrow> [] | Some ss \<Rightarrow> ss)))"

definition api_set_allowlist :: "json \<Rightarrow> int \<Rightarrow> fs \<Rightarrow> (error + json) \<times> fs" where
  "api_set_allowlist payload ts f =
     (case model_validate payload of
        Inl e \<Rightarrow> (Inl e, f)
      | Inr a \<Rightarrow>
          (let f1 = save_allowlist a f
           in case action_log (load_state (state_file f1)) ts ''allowlist_set''
                     (JObj [(''btc'', address_count (btc a)), (''bch'', address_count (bch a)),
                            (''dgb'', address_count (dgb a))]) of
                Inl e \<Rightarrow> (Inl e, f1)
              | Inr st \<Rightarrow> (Inr (JObj [(''ok'', JBool True)]), save_state st f1)))"

text \<open>
  \<^verbatim>\<open>has_allowlist\<close>: the \<^verbatim>\<open>or\<close> chain is true when the first non-empty
  \<^verbatim>\<open>allowed_addresses\<close> list is found.
\<close>

definition has_allowlist :: "allowlist \<Rightarrow> bool" where
  "has_allowlist a =
     (case map_of (btc a) ''allowed_addresses'' of
        Some (x # xs) \<Rightarrow> True
      | _ \<Rightarrow>
     (case map_of (bch a) ''allowed_addresses'' of
        Some (x # xs) \<Rightarrow> True
      | _ \<Rightarrow>
     (case map_of (dgb a) ''allowed_addresses'' of
        Some (x # xs) \<Rightarrow> True
      | _ \<Rightarrow> False)))"

section \<open>The tick\<close>

text \<open>
  \<^verbatim>\<open>x[k]\<close> and \<^verbatim>\<open>x[k] = v\<close> with a string key, on an arbitrary JSON value (the wording
  of the \<open>TypeError\<close> for a string is that of CPython 3.11).
\<close>

fun subscript_str :: "json \<Rightarrow> string \<Rightarrow> error + json" where
  "subscript_str (JObj d) k =
     (case map_of d k of None \<Rightarrow> Inl (KeyError (py_repr k)) | Some v \<Rightarrow> Inr v)"
| "subscript_str (JArr xs) k = Inl (TypeError ''list indices must be integers or slices, not str'')"
| "subscript_str (JStr s) k =
     Inl (TypeError (''string indices must be integers, not '' @ py_repr ''str''))"
| "subscript_str v k = Inl (not_subscriptable v)"

fun set_item :: "json \<Rightarrow> string \<Rightarrow> json \<Rightarrow> error + json" where
  "set_item (JObj d) k x = Inr (JObj (dict_set d k x))"
| "set_item (JArr xs) k x = Inl (TypeError ''list indices must be integers or slices, not str'')"
| "set_item v k x =
     Inl (TypeError (py_repr (type_name v) @ '' object does not support item assignment''))"

text \<open>
  \<^verbatim>\<open>state["intel"][k] = x\<close>: the inner dictionary is changed in place, so the state holds
  the changed dictionary under the same key.
\<close>

definition set_intel :: "json \<Rightarrow> string \<Rightarrow> json \<Rightarrow> error + json" where
  "set_intel st k x =
     (case subscript_str st ''intel'' of
        Inl e \<Rightarrow> Inl e
      | Inr intel \<Rightarrow>
          (case set_item intel k x of
             Inl e \<Rightarrow> Inl e
           | Inr intel' \<Rightarrow> set_item st ''intel'' intel'))"

text \<open>The entries of \<^verbatim>\<open>state["intel"]["containers"]\<close> and of \<^verbatim>\<open>state["intel"]["roles"]\<close>.\<close>

definition container_summary :: "dict \<Rightarrow> json" where
  "container_summary c =
     JObj [(''id'', dict_get c ''Id''), (''names'', dict_get c ''Names''),
           (''image'', dict_get c ''Image''), (''state'', dict_get c ''State''),
           (''status'', dict_get c ''Status'')]"

fun role_entries :: "roles \<Rightarrow> error + dict" where
  "role_entries [] = Inr []"
| "role_entries ((k, v) # rs) =
     (let d = (case v of None \<Rightarrow> [] | Some c \<Rightarrow> c)
      in case subscript0 (py_or (dict_get d ''Names'') (JArr [JNull])) of
           Inl e \<Rightarrow> Inl e
         | Inr name \<Rightarrow>
             (case role_entries rs of
                Inl e \<Rightarrow> Inl e
              | Inr es \<Rightarrow> Inr ((k, JObj [(''id'', dict_get d ''Id''), (''name'', name)]) # es)))"

text \<open>
  What a tick reads from outside: the two environment flags, the reply of the Docker proxy
  to \<^verbatim>\<open>GET /containers/json?all=1\<close> (an exception, or the list of containers, each a
  dictionary), its reply to a restart request (given the number of requests the tick issued
  before, and the container id), and the clock (the \<open>n\<close>-th reading of
  \<^verbatim>\<open>int(time.time())\<close> in the tick).

  A tick is run with explicit state: the state document being changed, the requests sent
  to the Docker proxy so far (a restart request with the role it was issued for), and the
  number of clock readings. Its outcome is the files it leaves, the requests it issued and
  the exception that escapes it, if any.
\<close>

datatype request = Get_containers | Post_restart string json

record env =
  armed_mode :: bool
  failsafe_stop_mining :: bool
  docker_list_reply :: "error + dict list"
  docker_restart_reply :: "nat \<Rightarrow> json \<Rightarrow> error + response"
  clock :: "nat \<Rightarrow> int"

record run =
  cur_state :: json
  requests :: "request list"
  clock_reads :: nat

record outcome =
  files :: fs
  issued :: "request list"
  raised :: "error option"

text \<open>
  The lines of the \<^verbatim>\<open>try\<close> block that record the containers and the roles under
  \<^verbatim>\<open>state["intel"]\<close> (the same in both versions): on an exception, the state as changed so
  far; otherwise the roles and the changed state.
\<close>

definition record_intel :: "dict list \<Rightarrow> json \<Rightarrow> error \<times> json + roles \<times> json" where
  "record_intel containers st =
     (case set_intel st ''containers'' (JArr (map container_summary containers)) of
        Inl e \<Rightarrow> Inl (e, st)
      | Inr s1 \<Rightarrow>
     (case classify containers of
        Inl e \<Rightarrow> Inl (e, s1)
      | Inr rs \<Rightarrow>
     (case role_entries rs of
        Inl e \<Rightarrow> Inl (e, s1)
      | Inr es \<Rightarrow>
     (case set_intel s1 ''roles'' (JObj es) of
        Inl e \<Rightarrow> Inl (e, s1)
      | Inr s2 \<Rightarrow> Inr (rs, s2)))))"

text \<open>\<^verbatim>\<open>state["last_run"] = int(time.time())\<close>, the last line of the \<^verbatim>\<open>try\<close> block.\<close>

definition stamp_last_run :: "env \<Rightarrow> run \<Rightarrow> error option \<times> run" where
  "stamp_last_run ev r =
     (case set_item (cur_state r) ''last_run'' (JNum (clock ev (clock_reads r))) of
        Inl e \<Rightarrow> (Some e, r\<lparr>clock_reads := Suc (clock_reads r)\<rparr>)
      | Inr s \<Rightarrow> (None, r\<lparr>cur_state := s, clock_reads := Suc (clock_reads r)\<rparr>))"

text \<open>
  The loop \<^verbatim>\<open>for k in ("btc","bch","dgb","miningcore")\<close> of \<^verbatim>\<open>agent_tick\<close> (version
  0.1.2). An exception leaves the loop with the state as changed so far. \<open>alert\<close> and
  \<open>action_log\<close> read the clock when they build the entry, after \<open>setdefault\<close> and the
  lookup of \<open>append\<close>.
\<close>

definition role_order :: "string list" where
  "role_order = [''btc'', ''bch'', ''dgb'', ''miningcore'']"

definition container_state :: "dict \<Rightarrow> error + string" where
  "container_state c = str_lower (py_or (dict_get c ''State'') (JStr ''''))"

definition failsafe_msg :: string where
  "failsafe_msg = ''MiningCore present but allowlist not set. Failsafe posture active.''"

fun restart_loop :: "env \<Rightarrow> allowlist \<Rightarrow> roles \<Rightarrow> string list \<Rightarrow> run \<Rightarrow> error option \<times> run" where
  "restart_loop ev a rs [] r = (None, r)"
| "restart_loop ev a rs (k # ks) r =
     (case role_get rs k of
        None \<Rightarrow> restart_loop ev a rs ks r
      | Some c \<Rightarrow>
          if c = [] then restart_loop ev a rs ks r
          else
            (case container_state c of
               Inl e \<Rightarrow> (Some e, r)
             | Inr st \<Rightarrow>
                 if st = ''exited'' \<or> st = ''dead'' then
                   if k = ''miningcore'' \<and> failsafe_stop_mining ev \<and> \<not> has_allowlist a then
                     (case alert (cur_state r) (clock ev (clock_reads r)) ''critical'' failsafe_msg
                             (JObj [(''role'', JStr k)]) of
                        Inl e \<Rightarrow> (Some e, r)
                      | Inr s' \<Rightarrow>
                          restart_loop ev a rs ks
                            (r\<lparr>cur_state := s', clock_reads := Suc (clock_reads r)\<rparr>))
                   else
                     (case subscript_str (JObj c) ''Id'' of
                        Inl e \<Rightarrow> (Some e, r)
                      | Inr i \<Rightarrow>
                          (let r1 = r\<lparr>requests := requests r @ [Post_restart k i]\<rparr>
                           in case docker_restart (docker_restart_reply ev (length (requests r)) i) of
                                Inl e \<Rightarrow> (Some e, r1)
                              | Inr u \<Rightarrow>
                                  (case action_log (cur_state r1) (clock ev (clock_reads r1)) ''restart''
                                          (JObj [(''role'', JStr k), (''id'', dict_get c ''Id'')]) of
                                     Inl e \<Rightarrow> (Some e, r1)
                                   | Inr s' \<Rightarrow>
                                       restart_loop ev a rs ks
                                         (r1\<lparr>cur_state := s', clock_reads := Suc (clock_reads r1)\<rparr>))))
                 else restart_loop ev a rs ks r))"

text \<open>
  The \<^verbatim>\<open>try\<close> block of \<^verbatim>\<open>agent_tick\<close>, and \<^verbatim>\<open>agent_tick\<close>: the \<^verbatim>\<open>except\<close> clause logs
  the exception with \<open>alert\<close>; an exception of \<open>alert\<close> itself escapes the tick before
  \<^verbatim>\<open>save_state\<close>.
\<close>

definition agent_tick_body :: "env \<Rightarrow> allowlist \<Rightarrow> run \<Rightarrow> error option \<times> run" where
  "agent_tick_body ev a r0 =
     (let r = r0\<lparr>requests := requests r0 @ [Get_containers]\<rparr>
      in case docker_list_reply ev of
           Inl e \<Rightarrow> (Some e, r)
         | Inr containers \<Rightarrow>
             (case record_intel containers (cur_state r) of
                Inl (e, s) \<Rightarrow> (Some e, r\<lparr>cur_state := s\<rparr>)
              | Inr (rs, s2) \<Rightarrow>
                  (case (if armed_mode ev
                         then restart_loop ev a rs role_order (r\<lparr>cur_state := s2\<rparr>)
                         else (None, r\<lparr>cur_state := s2\<rparr>)) of
                     (Some e, r3) \<Rightarrow> (Some e, r3)
                   | (None, r3) \<Rightarrow> stamp_last_run ev r3)))"

definition agent_tick :: "env \<Rightarrow> fs \<Rightarrow> outcome" where
  "agent_tick ev f =
     (let r0 = \<lparr>cur_state = load_state (state_file f), requests = [], clock_reads = 0\<rparr>;
          a = load_allowlist (allowlist_file f)
      in case agent_tick_body ev a r0 of
           (None, r) \<Rightarrow> \<lparr>files = save_state (cur_state r) f, issued = requests r, raised = None\<rparr>
         | (Some e, r) \<Rightarrow>
             (case alert (cur_state r) (clock ev (clock_reads r)) ''error'' ''Agent tick failed.''
                     (JObj [(''error'', JStr (str_of_error e))]) of
                Inl e' \<Rightarrow> \<lparr>files = f, issued = requests r, raised = Some e'\<rparr>
              | Inr s' \<Rightarrow> \<lparr>files = save_state s' f, issued = requests r, raised = None\<rparr>))"

text \<open>
  \<^verbatim>\<open>tick\<close> of version 0.1.1: no failsafe, and the entries are built (and the clock read)
  before \<open>push\<close> is called.
\<close>

fun restart_loop_v1 :: "env \<Rightarrow> roles \<Rightarrow> string list \<Rightarrow> run \<Rightarrow> error option \<times> run" where
  "restart_loop_v1 ev rs [] r = (None, r)"
| "restart_loop_v1 ev rs (k # ks) r =
     (case role_get rs k of
        None \<Rightarrow> restart_loop_v1 ev rs ks r
      | Some v \<Rightarrow>
          if v = [] then restart_loop_v1 ev rs ks r
          else
            (case container_state v of
               Inl e \<Rightarrow> (Some e, r)
             | Inr st \<Rightarrow>
                 if st = ''exited'' \<or> st = ''dead'' then
                   (case subscript_str (JObj v) ''Id'' of
                      Inl e \<Rightarrow> (Some e, r)
                    | Inr i \<Rightarrow>
                        (let r1 = r\<lparr>requests := requests r @ [Post_restart k i]\<rparr>
                         in case docker_restart_v1 (docker_restart_reply ev (length (requests r)) i) of
                              Inl e \<Rightarrow> (Some e, r1)
                            | Inr u \<Rightarrow>
                                (let r2 = r1\<lparr>clock_reads := Suc (clock_reads r1)\<rparr>
                                 in case push (cur_state r2) ''actions''
                                           (JObj [(''ts'', JNum (clock ev (clock_reads r1))),
                                                  (''kind'', JStr ''restart''), (''role'', JStr k)]) of
                                      Inl e \<Rightarrow> (Some e, r2)
                                    | Inr s' \<Rightarrow> restart_loop_v1 ev rs ks (r2\<lparr>cur_state := s'\<rparr>))))
                 else restart_loop_v1 ev rs ks r))"

definition tick_body :: "env \<Rightarrow> run \<Rightarrow> error option \<times> run" where
  "tick_body ev r0 =
     (let r = r0\<lparr>requests := requests r0 @ [Get_containers]\<rparr>
      in case docker_list_reply ev of
           Inl e \<Rightarrow> (Some e, r)
         | Inr containers \<Rightarrow>
             (case record_intel containers (cur_state r) of
                Inl (e, s) \<Rightarrow> (Some e, r\<lparr>cur_state := s\<rparr>)
              | Inr (rs, s2) \<Rightarrow>
                  (case (if armed_mode ev
                         then restart_loop_v1 ev rs role_order (r\<lparr>cur_state := s2\<rparr>)
                         else (None, r\<lparr>cur_state := s2\<rparr>)) of
                     (Some e, r3) \<Rightarrow> (Some e, r3)
                   | (None, r3) \<Rightarrow> stamp_last_run ev r3)))"

definition tick :: "env \<Rightarrow> fs \<Rightarrow> outcome" where
  "tick ev f =
     (let r0 = \<lparr>cur_state = load_state (state_file f), requests = [], clock_reads = 0\<rparr>
      in case tick_body ev r0 of
           (None, r) \<Rightarrow> \<lparr>files = save_state (cur_state r) f, issued = requests r, raised = None\<rparr>
         | (Some e, r) \<Rightarrow>
             (case push (cur_state r) ''alerts''
                     (JObj [(''ts'', JNum (clock ev (clock_reads r))), (''level'', JStr ''error''),
                            (''msg'', JStr (str_of_error e))]) of
                Inl e' \<Rightarrow> \<lparr>files = f, issued = requests r, raised = Some e'\<rparr>
              | Inr s' \<Rightarrow> \<lparr>files = save_state s' f, issued = requests r, raised = None\<rparr>))"

subsection \<open>Notions for the properties of a tick\<close>

text \<open>
  The condition of the claims on a restart request: the role is one of the four, the
  classifier gave it a container with this \<^verbatim>\<open>Id\<close>, and the \<^verbatim>\<open>State\<close> of that container,
  lower-cased, is \<^verbatim>\<open>exited\<close> or \<^verbatim>\<open>dead\<close>.
\<close>

definition exited_or_dead :: "dict \<Rightarrow> bool" where
  "exited_or_dead c = (container_state c = Inr ''exited'' \<or> container_state c = Inr ''dead'')"

definition classified :: "env \<Rightarrow> roles option" where
  "classified ev =
     (case docker_list_reply ev of
        Inl e \<Rightarrow> None
      | Inr containers \<Rightarrow> (case classify containers of Inl e \<Rightarrow> None | Inr rs \<Rightarrow> Some rs))"

definition crashed_role :: "roles \<Rightarrow> string \<Rightarrow> json \<Rightarrow> bool" where
  "crashed_role rs k i =
     (k \<in> set role_order \<and>
      (case role_get rs k of
         None \<Rightarrow> False
       | Some c \<Rightarrow> map_of c ''Id'' = Some i \<and> exited_or_dead c))"

definition restart_allowed :: "env \<Rightarrow> string \<Rightarrow> json \<Rightarrow> bool" where
  "restart_allowed ev k i =
     (armed_mode ev \<and> (case classified ev of None \<Rightarrow> False | Some rs \<Rightarrow> crashed_role rs k i))"


text \<open>Two states agree on every top-level key outside \<open>ks\<close>.\<close>

definition same_except :: "string list \<Rightarrow> json \<Rightarrow> json \<Rightarrow> bool" where
  "same_except ks s s' = (\<forall>k. k \<notin> set ks \<longrightarrow> lookup s' k = lookup s k)"

fun is_obj :: "json \<Rightarrow> bool" where
  "is_obj (JObj d) = True"
| "is_obj v = False"

text \<open>
  A step of the tick from \<open>s\<close> to \<open>s'\<close> that changes no key outside \<open>ks\<close>, keeps a
  dictionary a dictionary and keeps the \<^verbatim>\<open>alerts\<close> entry a list or missing.
\<close>

definition moves :: "string list \<Rightarrow> json \<Rightarrow> json \<Rightarrow> bool" where
  "moves ks s s' =
     (same_except ks s s' \<and> (is_obj s \<longrightarrow> is_obj s') \<and>
      (log_ok s ''alerts'' \<longrightarrow> log_ok s' ''alerts''))"



text \<open>The entries that the two versions log for an exception, and the failsafe entry.\<close>

definition error_alert :: "int \<Rightarrow> error \<Rightarrow> json" where
  "error_alert t e =
     JObj [(''ts'', JNum t), (''level'', JStr ''error''), (''msg'', JStr ''Agent tick failed.''),
           (''meta'', JObj [(''error'', JStr (str_of_error e))])]"

definition error_alert_v1 :: "int \<Rightarrow> error \<Rightarrow> json" where
  "error_alert_v1 t e =
     JObj [(''ts'', JNum t), (''level'', JStr ''error''), (''msg'', JStr (str_of_error e))]"

definition critical_alert :: "int \<Rightarrow> json" where
  "critical_alert t =
     JObj [(''ts'', JNum t), (''level'', JStr ''critical''), (''msg'', JStr failsafe_msg),
           (''meta'', JObj [(''role'', JStr ''miningcore'')])]"

text \<open>The exception that reaches the \<^verbatim>\<open>except\<close> clause of \<^verbatim>\<open>agent_tick\<close>, if any.\<close>

definition caught :: "env \<Rightarrow> fs \<Rightarrow> error option" where
  "caught ev f =
     fst (agent_tick_body ev (load_allowlist (allowlist_file f))
            \<lparr>cur_state = load_state (state_file f), requests = [], clock_reads = 0\<rparr>)"

subsection \<open>Example inputs\<close>

definition btc_exited :: dict where
  "btc_exited =
     [(''Id'', JStr ''a1''), (''Names'', JArr [JStr ''/bitcoin'']), (''Image'', JStr ''btc:1''),
      (''State'', JStr ''exited''), (''Status'', JStr ''Exited (1)'')]"

definition miningcore_exited :: dict where
  "miningcore_exited =
     [(''Id'', JStr ''m1''), (''Names'', JArr [JStr ''/miningcore'']), (''Image'', JStr ''mc:1''),
      (''State'', JStr ''exited''), (''Status'', JStr ''Exited (1)'')]"

definition no_files :: fs where
  "no_files = \<lparr>allowlist_file = Absent, state_file = Absent\<rparr>"

text \<open>
  An armed agent with the failsafe on; the proxy lists a crashed \<^verbatim>\<open>bitcoin\<close> and a crashed
  \<^verbatim>\<open>miningcore\<close> container and answers every restart with status 500.
\<close>

definition failing_proxy :: env where
  "failing_proxy =
     \<lparr>armed_mode = True, failsafe_stop_mining = True,
      docker_list_reply = Inr [btc_exited, miningcore_exited],
      docker_restart_reply = (\<lambda>n i. Inr (500, ''boom'')),
      clock = (\<lambda>n. 100)\<rparr>"

text \<open>The same agent when the proxy lists the crashed \<^verbatim>\<open>miningcore\<close> container only.\<close>

definition miningcore_only :: env where
  "miningcore_only =
     \<lparr>armed_mode = True, failsafe_stop_mining = True,
      docker_list_reply = Inr [miningcore_exited],
      docker_restart_reply = (\<lambda>n i. Inr (204, '''')),
      clock = (\<lambda>n. 100)\<rparr>"


definition unarmed_proxy :: env where
  "unarmed_proxy =
     \<lparr>armed_mode = False, failsafe_stop_mining = True,
      docker_list_reply = Inr [btc_exited, miningcore_exited],
      docker_restart_reply = (\<lambda>n i. Inr (204, '''')),
      clock = (\<lambda>n. 100)\<rparr>"


definition noted_files :: fs where
  "noted_files =
     \<lparr>allowlist_file = Absent,
      state_file = Parsed (JObj [(''note'', JStr ''keep''), (''last_run'', JNum 7),
                                 (''intel'', JObj []), (''actions'', JArr []),
                                 (''alerts'', JArr [])])\<rparr>"

section \<open>Properties of the classifier\<close>

lemma starts_with_iff: "starts_with k s \<longleftrightarrow> (\<exists>q. s = k @ q)"
  by (induction k s rule: starts_with.induct) auto

lemma contains_iff: "contains k s \<longleftrightarrow> (\<exists>p q. s = p @ k @ q)"
proof (induction s)
  case Nil
  then show ?case by simp
next
  case (Cons c cs)
  show ?case
  proof
    assume "contains k (c # cs)"
    then consider "starts_with k (c # cs)" | "contains k cs" by auto
    then show "\<exists>p q. c # cs = p @ k @ q"
    proof cases
      case 1
      then obtain q where "c # cs = k @ q" by (auto simp: starts_with_iff)
      then have "c # cs = [] @ k @ q" by simp
      then show ?thesis by blast
    next
      case 2
      then obtain p q where "cs = p @ k @ q" using Cons.IH by blast
      then have "c # cs = (c # p) @ k @ q" by simp
      then show ?thesis by blast
    qed
  next
    assume "\<exists>p q. c # cs = p @ k @ q"
    then obtain p q where pq: "c # cs = p @ k @ q" by blast
    show "contains k (c # cs)"
    proof (cases p)
      case Nil
      with pq have "starts_with k (c # cs)" by (auto simp: starts_with_iff)
      then show ?thesis by simp
    next
      case (Cons a p')
      with pq have "cs = p' @ k @ q" by simp
      then have "contains k cs" using Cons.IH by blast
      then show ?thesis by simp
    qed
  qed
qed

lemma container_name_shaped:
  "names_shaped (dict_get c ''Names'') \<Longrightarrow>
   container_name c = Inr (first_name_lower (dict_get c ''Names''))"
proof (cases "dict_get c ''Names''")
  case (JArr xs)
  assume "names_shaped (dict_get c ''Names'')"
  with JArr have all: "list_all is_str xs" by simp
  show ?thesis
  proof (cases xs)
    case Nil
    with JArr show ?thesis by (simp add: container_name_def py_or_def lower_def)
  next
    case (Cons x xs')
    with all obtain n where "x = JStr n" by (cases x) auto
    with JArr Cons show ?thesis by (simp add: container_name_def py_or_def)
  qed
qed (auto simp: container_name_def py_or_def lower_def)

lemma container_image_shaped:
  "image_shaped (dict_get c ''Image'') \<Longrightarrow>
   container_image c = Inr (image_lower (dict_get c ''Image''))"
  by (cases "dict_get c ''Image''") (auto simp: container_image_def py_or_def lower_def)

lemma pick_shaped:
  "list_all docker_shaped cs \<Longrightarrow> pick keys cs = Inr (find (role_match keys) cs)"
proof (induction cs)
  case Nil
  then show ?case by simp
next
  case (Cons c cs)
  then have c: "docker_shaped c" and rest: "pick keys cs = Inr (find (role_match keys) cs)"
    by simp_all
  from c have n: "container_name c = Inr (first_name_lower (dict_get c ''Names''))"
    and i: "container_image c = Inr (image_lower (dict_get c ''Image''))"
    by (simp_all add: docker_shaped_def container_name_shaped container_image_shaped)
  have m: "(list_ex (\<lambda>k. contains k (first_name_lower (dict_get c ''Names''))) keys \<or>
            list_ex (\<lambda>k. contains k (image_lower (dict_get c ''Image''))) keys)
           = role_match keys c"
    by (simp add: role_match_def)
  show ?case by (simp add: n i rest m)
qed

text \<open>
  C4. On a list of containers shaped as Docker returns them, \<open>classify\<close> returns
  normally and gives each of the four roles the first container, in list order, whose
  first \<^verbatim>\<open>Names\<close> entry (lower-cased) or whose \<^verbatim>\<open>Image\<close> (lower-cased) contains one of
  the role's keywords as a substring, and \<^verbatim>\<open>None\<close> when there is none: the result is
  \<open>spec_classify\<close>, which reads nothing of a container but these two strings.
\<close>

theorem classify_first_match:
  "list_all docker_shaped cs \<Longrightarrow> classify cs = Inr (spec_classify cs)"
  by (simp add: classify_def spec_classify_def pick_shaped)

theorem classify_first_match_witness:
  "classify [[(''Id'', JStr ''a1''), (''Names'', JArr [JStr ''/nginx'']), (''Image'', JStr ''nginx:1'')],
             [(''Id'', JStr ''b2''), (''Names'', JArr [JStr ''/Pool'']), (''Image'', JStr ''MiningCore:2'')],
             [(''Id'', JStr ''c3''), (''Names'', JArr [JStr ''/DGB-node'']), (''Image'', JNull)],
             [(''Id'', JStr ''d4''), (''Names'', JArr [JStr ''/miningcore-2'']), (''Image'', JStr ''x'')]]
   = Inr [(''btc'', None),
          (''bch'', None),
          (''dgb'', Some [(''Id'', JStr ''c3''), (''Names'', JArr [JStr ''/DGB-node'']), (''Image'', JNull)]),
          (''miningcore'', Some [(''Id'', JStr ''b2''), (''Names'', JArr [JStr ''/Pool'']),
                                 (''Image'', JStr ''MiningCore:2'')])]"
  using classify_first_match
    [of "[[(''Id'', JStr ''a1''), (''Names'', JArr [JStr ''/nginx'']), (''Image'', JStr ''nginx:1'')],
          [(''Id'', JStr ''b2''), (''Names'', JArr [JStr ''/Pool'']), (''Image'', JStr ''MiningCore:2'')],
          [(''Id'', JStr ''c3''), (''Names'', JArr [JStr ''/DGB-node'']), (''Image'', JNull)],
          [(''Id'', JStr ''d4''), (''Names'', JArr [JStr ''/miningcore-2'']), (''Image'', JStr ''x'')]]"]
  by (simp add: docker_shaped_def dict_get_def spec_classify_def role_match_def lower_def
      lower_char_def btc_keys_def bch_keys_def dgb_keys_def miningcore_keys_def)

text \<open>
  C9. The roles are not exclusive: a single container named \<^verbatim>\<open>/bitcoincash\<close> is returned
  for the role \<^verbatim>\<open>btc\<close> (its name contains \<^verbatim>\<open>bitcoin\<close>) and for the role \<^verbatim>\<open>bch\<close>.
\<close>

theorem classify_roles_overlap:
  "classify [[(''Id'', JStr ''e5''), (''Names'', JArr [JStr ''/bitcoincash'']), (''Image'', JStr ''bchn:27'')]]
   = Inr [(''btc'', Some [(''Id'', JStr ''e5''), (''Names'', JArr [JStr ''/bitcoincash'']),
                          (''Image'', JStr ''bchn:27'')]),
          (''bch'', Some [(''Id'', JStr ''e5''), (''Names'', JArr [JStr ''/bitcoincash'']),
                          (''Image'', JStr ''bchn:27'')]),
          (''dgb'', None),
          (''miningcore'', None)]"
  by (simp add: classify_def container_name_def container_image_def py_or_def dict_get_def
      lower_def lower_char_def btc_keys_def bch_keys_def dgb_keys_def miningcore_keys_def)

section \<open>Properties of the bounded logs\<close>

lemma map_of_dict_set: "map_of (dict_set d k v) k' = (if k' = k then Some v else map_of d k')"
  by (induction d) auto

lemma do_call_push: "do_call s c = push s (call_key c) (call_item c)"
  by (cases c) (simp_all add: push_def action_log_def alert_def)

lemma push_ok:
  assumes "log_ok s key"
  shows "\<exists>d'. push s key item = Inr (JObj d') \<and>
            map_of d' key = Some (JArr (last_200 (entries s key @ [item]))) \<and>
            (\<forall>k. k \<noteq> key \<longrightarrow> map_of d' k = lookup s k)"
proof -
  from assms obtain d where s: "s = JObj d" by (cases s) (auto simp: log_ok_def)
  show ?thesis
  proof (cases "map_of d key")
    case None
    then show ?thesis
      by (simp add: s push_def setdefault_def append_and_trim_def map_of_dict_set entries_def)
  next
    case (Some v)
    with assms s obtain xs where "v = JArr xs" by (cases v) (auto simp: log_ok_def)
    with Some show ?thesis
      by (simp add: s push_def setdefault_def append_and_trim_def map_of_dict_set entries_def)
  qed
qed

lemma push_result:
  assumes "push s key item = Inr s'"
  shows "log_ok s key \<and> entries s' key = last_200 (entries s key @ [item]) \<and>
         (\<forall>k. k \<noteq> key \<longrightarrow> lookup s' k = lookup s k)"
proof -
  have ok: "log_ok s key"
    using assms
    by (auto simp: push_def setdefault_def append_and_trim_def log_ok_def map_of_dict_set
        split: json.splits option.splits)
  from push_ok [OF ok, of item] assms have
    "entries s' key = last_200 (entries s key @ [item]) \<and>
     (\<forall>k. k \<noteq> key \<longrightarrow> lookup s' k = lookup s k)"
    by (auto simp: entries_def)
  with ok show ?thesis by simp
qed

lemma length_last_200: "length (last_200 xs) \<le> 200"
  by (simp add: last_200_def)

lemma length_last_200_full: "200 \<le> length xs \<Longrightarrow> length (last_200 (xs @ [x])) = 200"
  by (simp add: last_200_def)

lemma last_200_short: "length xs < 200 \<Longrightarrow> last_200 (xs @ [x]) = xs @ [x]"
  by (simp add: last_200_def)

lemma do_call_bounded:
  assumes "bounded s" "do_call s c = Inr s'"
  shows "bounded s'"
proof -
  from assms(2) have p: "push s (call_key c) (call_item c) = Inr s'" by (simp add: do_call_push)
  note r = push_result [OF p]
  have "length (entries s' k) \<le> 200" if "k = ''actions'' \<or> k = ''alerts''" for k
  proof (cases "k = call_key c")
    case True
    with r show ?thesis by (simp add: length_last_200)
  next
    case False
    with r have "lookup s' k = lookup s k" by simp
    then have "entries s' k = entries s k" by (simp add: entries_def)
    with assms(1) that show ?thesis by (auto simp: bounded_def)
  qed
  then show ?thesis by (simp add: bounded_def)
qed

lemma do_calls_bounded: "bounded s \<Longrightarrow> do_calls s cs = Inr s' \<Longrightarrow> bounded s'"
proof (induction cs arbitrary: s)
  case Nil
  then show ?case by simp
next
  case (Cons c cs)
  then show ?case by (auto split: sum.splits dest: do_call_bounded)
qed

text \<open>
  C3, as stated, fails: a helper only trims the list it appends to. On a state whose
  \<^verbatim>\<open>alerts\<close> list holds 201 entries, \<open>action_log\<close> returns a state whose \<^verbatim>\<open>alerts\<close>
  list still holds 201 entries.
\<close>

theorem log_bound_counterexample:
  "action_log
     (JObj [(''last_run'', JNull), (''intel'', JObj []), (''actions'', JArr []),
            (''alerts'', JArr (replicate 201 (JStr ''old'')))])
     7 ''restart'' (JObj [(''role'', JStr ''btc'')])
   = Inr (JObj [(''last_run'', JNull), (''intel'', JObj []),
                (''actions'', JArr [JObj [(''ts'', JNum 7), (''kind'', JStr ''restart''),
                                          (''details'', JObj [(''role'', JStr ''btc'')])]]),
                (''alerts'', JArr (replicate 201 (JStr ''old'')))])
   \<and> length (entries
         (JObj [(''last_run'', JNull), (''intel'', JObj []),
                (''actions'', JArr [JObj [(''ts'', JNum 7), (''kind'', JStr ''restart''),
                                          (''details'', JObj [(''role'', JStr ''btc'')])]]),
                (''alerts'', JArr (replicate 201 (JStr ''old'')))])
         ''alerts'') = 201"
  by (simp add: action_log_def setdefault_def append_and_trim_def last_200_def entries_def)

text \<open>
  C3, amended. On a state that is a dictionary whose entry under the helper's key is a
  list or missing, an append through \<open>push\<close>, \<open>action_log\<close> or \<open>alert\<close> returns normally
  and leaves under that key the most recent 200 of the old entries followed by the new
  one: at most 200 entries, exactly 200 when there were 200 or more before. Every other
  key, the other list among them, is left as it was. So, over any sequence of appends,
  both lists hold at most 200 entries after every operation when they did before the
  first one.
\<close>

theorem log_helpers_keep_last_200:
  "(log_ok s (call_key c) \<longrightarrow>
      (\<exists>s'. do_call s c = Inr s' \<and>
            entries s' (call_key c) = last_200 (entries s (call_key c) @ [call_item c]) \<and>
            length (entries s' (call_key c)) \<le> 200 \<and>
            (200 \<le> length (entries s (call_key c)) \<longrightarrow>
               length (entries s' (call_key c)) = 200) \<and>
            (\<forall>k. k \<noteq> call_key c \<longrightarrow> lookup s' k = lookup s k)))
   \<and> (bounded t \<and> do_calls t cs = Inr t' \<longrightarrow> bounded t')"
proof (intro conjI impI)
  assume ok: "log_ok s (call_key c)"
  from push_ok [OF ok, of "call_item c"] obtain d' where
    p: "push s (call_key c) (call_item c) = Inr (JObj d')" by blast
  note r = push_result [OF p]
  have "do_call s c = Inr (JObj d')" using p by (simp add: do_call_push)
  moreover have "entries (JObj d') (call_key c) = last_200 (entries s (call_key c) @ [call_item c])"
    using r by simp
  moreover have "length (entries (JObj d') (call_key c)) \<le> 200"
    using r by (simp add: length_last_200)
  moreover have "200 \<le> length (entries s (call_key c)) \<longrightarrow>
                 length (entries (JObj d') (call_key c)) = 200"
    using r by (simp add: length_last_200_full)
  moreover have "\<forall>k. k \<noteq> call_key c \<longrightarrow> lookup (JObj d') k = lookup s k"
    using r by simp
  ultimately show "\<exists>s'. do_call s c = Inr s' \<and>
            entries s' (call_key c) = last_200 (entries s (call_key c) @ [call_item c]) \<and>
            length (entries s' (call_key c)) \<le> 200 \<and>
            (200 \<le> length (entries s (call_key c)) \<longrightarrow>
               length (entries s' (call_key c)) = 200) \<and>
            (\<forall>k. k \<noteq> call_key c \<longrightarrow> lookup s' k = lookup s k)"
    by blast
next
  assume "bounded t \<and> do_calls t cs = Inr t'"
  then show "bounded t'" using do_calls_bounded by blast
qed

theorem log_helpers_keep_last_200_witness:
  "log_ok (JObj [(''actions'', JArr []), (''alerts'', JArr (replicate 200 (JStr ''old'')))]) ''alerts''
   \<and> (\<exists>s'. do_call (JObj [(''actions'', JArr []), (''alerts'', JArr (replicate 200 (JStr ''old'')))])
                    (Alert 9 ''error'' ''boom'' JNull) = Inr s' \<and>
             length (entries s' ''alerts'') = 200 \<and>
             lookup s' ''actions'' = Some (JArr []))
   \<and> bounded (JObj [(''last_run'', JNull), (''intel'', JObj []), (''actions'', JArr []), (''alerts'', JArr [])])
   \<and> do_calls (JObj [(''last_run'', JNull), (''intel'', JObj []), (''actions'', JArr []), (''alerts'', JArr [])])
         [Push ''alerts'' (JStr ''a''), Action_log 3 ''restart'' JNull]
       = Inr (JObj [(''last_run'', JNull), (''intel'', JObj []),
                    (''actions'', JArr [JObj [(''ts'', JNum 3), (''kind'', JStr ''restart''), (''details'', JNull)]]),
                    (''alerts'', JArr [JStr ''a''])])
   \<and> bounded (JObj [(''last_run'', JNull), (''intel'', JObj []),
                    (''actions'', JArr [JObj [(''ts'', JNum 3), (''kind'', JStr ''restart''), (''details'', JNull)]]),
                    (''alerts'', JArr [JStr ''a''])])"
  using log_helpers_keep_last_200
    [of "JObj [(''actions'', JArr []), (''alerts'', JArr (replicate 200 (JStr ''old'')))]"
        "Alert 9 ''error'' ''boom'' JNull"
        "JObj [(''last_run'', JNull), (''intel'', JObj []), (''actions'', JArr []), (''alerts'', JArr [])]"
        "[Push ''alerts'' (JStr ''a''), Action_log 3 ''restart'' JNull]"
        "JObj [(''last_run'', JNull), (''intel'', JObj []),
               (''actions'', JArr [JObj [(''ts'', JNum 3), (''kind'', JStr ''restart''), (''details'', JNull)]]),
               (''alerts'', JArr [JStr ''a''])]"]
  by (simp add: log_ok_def bounded_def entries_def push_def action_log_def alert_def
      setdefault_def append_and_trim_def last_200_def)

section \<open>Properties of the files and the HTTP surface\<close>

lemma str_list_map: "str_list (map JStr ss) = Some ss"
  by (induction ss) auto

lemma validate_entries_dump:
  "validate_entries (map (\<lambda>(k, ss). (k, JArr (map JStr ss))) es) = Some es"
  by (induction es) (auto simp: str_list_map)

lemma model_validate_dump: "model_validate (model_dump a) = Inr a"
  by (simp add: model_validate_def model_dump_def dump_field_def validate_entries_dump)

lemma load_saved_allowlist: "load_allowlist (allowlist_file (save_allowlist a f)) = a"
proof -
  have "py_or (model_dump a) (JObj []) = model_dump a"
    by (simp add: py_or_def model_dump_def)
  then show ?thesis by (simp add: save_allowlist_def model_validate_dump)
qed

text \<open>
  C7. Saving an allowlist and loading it back gives the same allowlist. So, for a payload
  that validates as the allowlist \<open>a\<close>, \<^verbatim>\<open>GET /api/allowlist\<close> on the files that
  \<^verbatim>\<open>POST /api/allowlist\<close> leaves returns the dump of \<open>a\<close>, in both versions (in version
  0.1.2 also when the logging of the action raises after the allowlist was written).
\<close>

theorem allowlist_round_trip:
  "load_allowlist (allowlist_file (save_allowlist a f)) = a \<and>
   (model_validate payload = Inr a \<longrightarrow>
      api_allowlist (snd (api_set_allowlist payload ts f)) = model_dump a \<and>
      api_allowlist (snd (api_set_allowlist_v1 payload f)) = model_dump a)"
proof (intro conjI impI)
  show "load_allowlist (allowlist_file (save_allowlist a f)) = a" by (rule load_saved_allowlist)
next
  assume v: "model_validate payload = Inr a"
  have "allowlist_file (snd (api_set_allowlist payload ts f)) = allowlist_file (save_allowlist a f)"
    by (simp add: api_set_allowlist_def v save_state_def Let_def split: sum.splits)
  then show "api_allowlist (snd (api_set_allowlist payload ts f)) = model_dump a"
    by (simp add: api_allowlist_def load_saved_allowlist)
next
  assume v: "model_validate payload = Inr a"
  show "api_allowlist (snd (api_set_allowlist_v1 payload f)) = model_dump a"
    by (simp add: api_set_allowlist_v1_def v api_allowlist_def load_saved_allowlist)
qed

theorem allowlist_round_trip_witness:
  "model_validate (JObj [(''btc'', JObj [(''allowed_addresses'', JArr [JStr ''bc1qxy''])]), (''note'', JNum 1)])
     = Inr \<lparr>btc = [(''allowed_addresses'', [''bc1qxy''])], bch = default_field, dgb = default_field\<rparr>
   \<and> api_allowlist (snd (api_set_allowlist
         (JObj [(''btc'', JObj [(''allowed_addresses'', JArr [JStr ''bc1qxy''])]), (''note'', JNum 1)])
         5 \<lparr>allowlist_file = Absent, state_file = Absent\<rparr>))
     = JObj [(''btc'', JObj [(''allowed_addresses'', JArr [JStr ''bc1qxy''])]),
             (''bch'', JObj [(''allowed_addresses'', JArr [])]),
             (''dgb'', JObj [(''allowed_addresses'', JArr [])])]"
  using allowlist_round_trip
    [of "\<lparr>btc = [(''allowed_addresses'', [''bc1qxy''])], bch = default_field, dgb = default_field\<rparr>"
        "\<lparr>allowlist_file = Absent, state_file = Absent\<rparr>"
        "JObj [(''btc'', JObj [(''allowed_addresses'', JArr [JStr ''bc1qxy''])]), (''note'', JNum 1)]"
        5]
  by (simp add: model_validate_def model_dump_def dump_field_def default_field_def)

text \<open>
  C10. Given a response, \<open>docker_restart\<close> raises exactly when the status code is neither
  204 nor 304, and returns normally on 204 and on 304, in both versions.
\<close>

theorem docker_restart_status:
  "((\<exists>e. docker_restart (Inr (status_code, text)) = Inl e) \<longleftrightarrow> (status_code \<noteq> 204 \<and> status_code \<noteq> 304)) \<and>
   (docker_restart (Inr (status_code, text)) = Inr () \<longleftrightarrow> (status_code = 204 \<or> status_code = 304)) \<and>
   ((\<exists>e. docker_restart_v1 (Inr (status_code, text)) = Inl e) \<longleftrightarrow> (status_code \<noteq> 204 \<and> status_code \<noteq> 304)) \<and>
   (docker_restart_v1 (Inr (status_code, text)) = Inr () \<longleftrightarrow> (status_code = 204 \<or> status_code = 304))"
  by (auto simp: docker_restart_def docker_restart_v1_def)

section \<open>Properties of the tick\<close>

lemma restart_loop_Cons_cases:
  obtains
    (skip) "restart_loop ev a rs (k # ks) r = restart_loop ev a rs ks r"
  | (raise) e where "restart_loop ev a rs (k # ks) r = (Some e, r)"
  | (failsafe) c s' where "role_get rs k = Some c" "exited_or_dead c" "k = ''miningcore''"
      "failsafe_stop_mining ev" "\<not> has_allowlist a"
      "alert (cur_state r) (clock ev (clock_reads r)) ''critical'' failsafe_msg
         (JObj [(''role'', JStr k)]) = Inr s'"
      "restart_loop ev a rs (k # ks) r =
         restart_loop ev a rs ks (r\<lparr>cur_state := s', clock_reads := Suc (clock_reads r)\<rparr>)"
  | (restart_failed) c i e where "role_get rs k = Some c" "exited_or_dead c"
      "map_of c ''Id'' = Some i"
      "\<not> (k = ''miningcore'' \<and> failsafe_stop_mining ev \<and> \<not> has_allowlist a)"
      "docker_restart (docker_restart_reply ev (length (requests r)) i) = Inl e"
      "restart_loop ev a rs (k # ks) r = (Some e, r\<lparr>requests := requests r @ [Post_restart k i]\<rparr>)"
  | (log_failed) c i e where "role_get rs k = Some c" "exited_or_dead c"
      "map_of c ''Id'' = Some i"
      "\<not> (k = ''miningcore'' \<and> failsafe_stop_mining ev \<and> \<not> has_allowlist a)"
      "docker_restart (docker_restart_reply ev (length (requests r)) i) = Inr ()"
      "restart_loop ev a rs (k # ks) r = (Some e, r\<lparr>requests := requests r @ [Post_restart k i]\<rparr>)"
  | (restarted) c i s' where "role_get rs k = Some c" "exited_or_dead c"
      "map_of c ''Id'' = Some i"
      "\<not> (k = ''miningcore'' \<and> failsafe_stop_mining ev \<and> \<not> has_allowlist a)"
      "docker_restart (docker_restart_reply ev (length (requests r)) i) = Inr ()"
      "action_log (cur_state r) (clock ev (clock_reads r)) ''restart''
         (JObj [(''role'', JStr k), (''id'', dict_get c ''Id'')]) = Inr s'"
      "restart_loop ev a rs (k # ks) r =
         restart_loop ev a rs ks
           (r\<lparr>requests := requests r @ [Post_restart k i], cur_state := s',
              clock_reads := Suc (clock_reads r)\<rparr>)"
proof (cases "role_get rs k")
  case None
  then show thesis using skip by simp
next
  case (Some c)
  note c = this
  show thesis
  proof (cases "c = []")
    case True
    with c show thesis using skip by simp
  next
    case False
    note ne = this
    show thesis
    proof (cases "container_state c")
      case (Inl e)
      with c ne show thesis using raise by simp
    next
      case (Inr st)
      note st = this
      show thesis
      proof (cases "st = ''exited'' \<or> st = ''dead''")
        case False
        with c ne st show thesis using skip by simp
      next
        case True
        with st have ed: "exited_or_dead c" by (auto simp: exited_or_dead_def)
        show thesis
        proof (cases "k = ''miningcore'' \<and> failsafe_stop_mining ev \<and> \<not> has_allowlist a")
          case True
          note fs = this
          show thesis
          proof (cases "alert (cur_state r) (clock ev (clock_reads r)) ''critical'' failsafe_msg
                          (JObj [(''role'', JStr k)])")
            case (Inl e)
            with c ne st \<open>st = ''exited'' \<or> st = ''dead''\<close> fs show thesis using raise by auto
          next
            case (Inr s')
            with c ne st \<open>st = ''exited'' \<or> st = ''dead''\<close> fs ed show thesis
              using failsafe [of c s'] by auto
          qed
        next
          case False
          note nfs = this
          show thesis
          proof (cases "map_of c ''Id''")
            case None
            with c ne st \<open>st = ''exited'' \<or> st = ''dead''\<close> nfs show thesis using raise by auto
          next
            case (Some i)
            note i = this
            show thesis
            proof (cases "docker_restart (docker_restart_reply ev (length (requests r)) i)")
              case (Inl e)
              with c ne st \<open>st = ''exited'' \<or> st = ''dead''\<close> nfs i ed show thesis
                using restart_failed [of c i e] by (auto simp: Let_def)
            next
              case (Inr u)
              note ok = this
              show thesis
              proof (cases "action_log (cur_state r) (clock ev (clock_reads r)) ''restart''
                              (JObj [(''role'', JStr k), (''id'', dict_get c ''Id'')])")
                case (Inl e)
                with c ne st \<open>st = ''exited'' \<or> st = ''dead''\<close> nfs i ed ok show thesis
                  using log_failed [of c i e] by (auto simp: Let_def)
              next
                case (Inr s')
                with c ne st \<open>st = ''exited'' \<or> st = ''dead''\<close> nfs i ed ok show thesis
                  using restarted [of c i s'] by (auto simp: Let_def)
              qed
            qed
          qed
        qed
      qed
    qed
  qed
qed

lemma restart_loop_requests:
  "restart_loop ev a rs ks r = (err, r') \<Longrightarrow> q \<in> set (requests r') \<Longrightarrow>
   q \<in> set (requests r) \<or>
   (\<exists>k i c. q = Post_restart k i \<and> k \<in> set ks \<and> role_get rs k = Some c \<and>
            map_of c ''Id'' = Some i \<and> exited_or_dead c)"
proof (induction ks arbitrary: r)
  case Nil
  then show ?case by simp
next
  case (Cons k ks)
  show ?case
  proof (cases rule: restart_loop_Cons_cases [of ev a rs k ks r])
    case skip
    with Cons.prems Cons.IH [of r] show ?thesis by auto
  next
    case (raise e)
    with Cons.prems show ?thesis by auto
  next
    case (failsafe c s')
    with Cons.prems Cons.IH [of "r\<lparr>cur_state := s', clock_reads := Suc (clock_reads r)\<rparr>"]
    show ?thesis by auto
  next
    case (restart_failed c i e)
    with Cons.prems show ?thesis by auto
  next
    case (log_failed c i e)
    with Cons.prems show ?thesis by auto
  next
    case (restarted c i s')
    with Cons.prems
      Cons.IH [of "r\<lparr>requests := requests r @ [Post_restart k i], cur_state := s',
                     clock_reads := Suc (clock_reads r)\<rparr>"]
    show ?thesis by auto
  qed
qed

lemma log_ok_iff:
  "log_ok s k \<longleftrightarrow> (\<exists>d. s = JObj d) \<and> (lookup s k = None \<or> is_list (lookup s k))"
  by (cases s) (auto simp: log_ok_def split: option.splits json.splits)

lemma same_except_refl: "same_except ks s s"
  by (simp add: same_except_def)

lemma same_except_trans:
  "same_except ks s s' \<Longrightarrow> same_except ks' s' s'' \<Longrightarrow> set ks \<union> set ks' \<subseteq> set ks'' \<Longrightarrow>
   same_except ks'' s s''"
  unfolding same_except_def by (metis UnCI subsetD)

lemma moves_refl: "moves ks s s"
  by (simp add: moves_def same_except_refl)

lemma moves_trans:
  "moves ks s s' \<Longrightarrow> moves ks' s' s'' \<Longrightarrow> set ks \<union> set ks' \<subseteq> set ks'' \<Longrightarrow> moves ks'' s s''"
  unfolding moves_def using same_except_trans by blast

lemma moves_other:
  assumes "same_except ks s s'" "''alerts'' \<notin> set ks" "\<exists>d. s' = JObj d"
  shows "moves ks s s'"
proof -
  from assms(1,2) have "lookup s' ''alerts'' = lookup s ''alerts''" by (simp add: same_except_def)
  with assms(3) have "log_ok s ''alerts'' \<longrightarrow> log_ok s' ''alerts''" by (auto simp: log_ok_iff)
  with assms(1,3) show ?thesis by (auto simp: moves_def)
qed

lemma set_item_obj: "set_item s k x = Inr s' \<Longrightarrow> is_obj s \<and> is_obj s'"
  by (cases s) auto

lemma set_item_moves:
  assumes "set_item s k x = Inr s'" "k \<noteq> ''alerts''"
  shows "moves [k] s s'"
proof -
  from assms(1) obtain d where d: "s = JObj d" "s' = JObj (dict_set d k x)" by (cases s) auto
  then have "same_except [k] s s'" by (simp add: same_except_def map_of_dict_set)
  with d assms(2) show ?thesis by (intro moves_other) auto
qed

lemma set_intel_moves:
  assumes "set_intel s k x = Inr s'"
  shows "moves [''intel''] s s'"
proof -
  from assms obtain v where "set_item s ''intel'' v = Inr s'"
    by (auto simp: set_intel_def split: sum.splits)
  then show ?thesis by (rule set_item_moves) simp
qed

lemma push_moves:
  assumes "push s key item = Inr s'"
  shows "moves [key] s s'"
proof -
  note r = push_result [OF assms]
  from r have ok: "log_ok s key" by simp
  from push_ok [OF ok, of item] assms obtain d' where d': "s' = JObj d'"
    and k: "map_of d' key = Some (JArr (last_200 (entries s key @ [item])))" by auto
  from r have se: "same_except [key] s s'" by (simp add: same_except_def)
  show ?thesis
  proof (cases "key = ''alerts''")
    case True
    with d' k have "log_ok s' ''alerts''" by (simp add: log_ok_iff)
    with se d' show ?thesis by (simp add: moves_def)
  next
    case False
    with se d' show ?thesis by (intro moves_other) auto
  qed
qed

lemma action_log_push:
  "action_log s ts kind details =
   push s ''actions'' (JObj [(''ts'', JNum ts), (''kind'', JStr kind), (''details'', details)])"
  by (simp add: action_log_def push_def)

lemma alert_push:
  "alert s ts level msg meta =
   push s ''alerts'' (JObj [(''ts'', JNum ts), (''level'', JStr level), (''msg'', JStr msg),
                            (''meta'', py_or meta (JObj []))])"
  by (simp add: alert_def push_def)

lemma record_intel_moves:
  "record_intel cs s = Inl (e, s1) \<Longrightarrow> moves [''intel''] s s1"
  "record_intel cs s = Inr (rs, s2) \<Longrightarrow> moves [''intel''] s s2 \<and> classify cs = Inr rs \<and> is_obj s2"
proof -
  assume "record_intel cs s = Inl (e, s1)"
  then have "s1 = s \<or> (\<exists>x. set_intel s ''containers'' x = Inr s1)"
    by (auto simp: record_intel_def split: sum.splits)
  then show "moves [''intel''] s s1" using moves_refl set_intel_moves by blast
next
  assume "record_intel cs s = Inr (rs, s2)"
  then obtain x y s1 where "set_intel s ''containers'' x = Inr s1" "set_intel s1 ''roles'' y = Inr s2"
    and c: "classify cs = Inr rs"
    by (auto simp: record_intel_def split: sum.splits)
  then have m: "moves [''intel''] s s1" "moves [''intel''] s1 s2" by (simp_all add: set_intel_moves)
  then have "moves [''intel''] s s2" by (rule moves_trans) simp
  moreover from \<open>set_intel s1 ''roles'' y = Inr s2\<close> have "is_obj s2"
    by (auto simp: set_intel_def split: sum.splits dest: set_item_obj)
  ultimately show "moves [''intel''] s s2 \<and> classify cs = Inr rs \<and> is_obj s2" using c by simp
qed

lemma stamp_last_run_moves:
  "stamp_last_run ev r = (err, r') \<Longrightarrow>
   moves [''last_run''] (cur_state r) (cur_state r') \<and> requests r' = requests r"
  by (auto simp: stamp_last_run_def moves_refl split: sum.splits intro: set_item_moves)

lemma stamp_last_run_obj: "stamp_last_run ev r = (err, r') \<Longrightarrow> is_obj (cur_state r) \<Longrightarrow> err = None"
  by (cases "cur_state r") (auto simp: stamp_last_run_def)

lemma moves_obj: "moves ks s s' \<Longrightarrow> is_obj s \<Longrightarrow> is_obj s'"
  by (simp add: moves_def)

lemma restart_loop_moves:
  "restart_loop ev a rs ks r = (err, r') \<Longrightarrow>
   moves [''actions'', ''alerts''] (cur_state r) (cur_state r')"
proof (induction ks arbitrary: r)
  case Nil
  then show ?case by (simp add: moves_refl)
next
  case (Cons k ks)
  show ?case
  proof (cases rule: restart_loop_Cons_cases [of ev a rs k ks r])
    case skip
    with Cons.prems Cons.IH [of r] show ?thesis by simp
  next
    case (raise e)
    with Cons.prems show ?thesis by (auto simp: moves_refl)
  next
    case (failsafe c s')
    from failsafe(6) have "moves [''alerts''] (cur_state r) s'" by (simp add: alert_push push_moves)
    moreover from failsafe(7) Cons.prems
      Cons.IH [of "r\<lparr>cur_state := s', clock_reads := Suc (clock_reads r)\<rparr>"]
    have "moves [''actions'', ''alerts''] s' (cur_state r')" by simp
    ultimately show ?thesis by (rule moves_trans) simp
  next
    case (restart_failed c i e)
    with Cons.prems show ?thesis by (auto simp: moves_refl)
  next
    case (log_failed c i e)
    with Cons.prems show ?thesis by (auto simp: moves_refl)
  next
    case (restarted c i s')
    from restarted(6) have "moves [''actions''] (cur_state r) s'"
      by (simp add: action_log_push push_moves)
    moreover from restarted(7) Cons.prems
      Cons.IH [of "r\<lparr>requests := requests r @ [Post_restart k i], cur_state := s',
                     clock_reads := Suc (clock_reads r)\<rparr>"]
    have "moves [''actions'', ''alerts''] s' (cur_state r')" by simp
    ultimately show ?thesis by (rule moves_trans) simp
  qed
qed

lemma restart_loop_raised_moves:
  "restart_loop ev a rs ks r = (Some x, r') \<Longrightarrow> ''miningcore'' \<notin> set (butlast ks) \<Longrightarrow>
   moves [''actions''] (cur_state r) (cur_state r')"
proof (induction ks arbitrary: r)
  case Nil
  then show ?case by simp
next
  case (Cons k ks)
  show ?case
  proof (cases rule: restart_loop_Cons_cases [of ev a rs k ks r])
    case skip
    with Cons.prems Cons.IH [of r] show ?thesis by (cases ks) (auto split: if_splits)
  next
    case (raise e)
    with Cons.prems show ?thesis by (auto simp: moves_refl)
  next
    case (failsafe c s')
    with Cons.prems have "ks = []" by (cases ks) auto
    with failsafe(7) Cons.prems show ?thesis by simp
  next
    case (restart_failed c i e)
    with Cons.prems show ?thesis by (auto simp: moves_refl)
  next
    case (log_failed c i e)
    with Cons.prems show ?thesis by (auto simp: moves_refl)
  next
    case (restarted c i s')
    from restarted(6) have "moves [''actions''] (cur_state r) s'"
      by (simp add: action_log_push push_moves)
    moreover from restarted(7) Cons.prems
      Cons.IH [of "r\<lparr>requests := requests r @ [Post_restart k i], cur_state := s',
                     clock_reads := Suc (clock_reads r)\<rparr>"]
    have "moves [''actions''] s' (cur_state r')" by (cases ks) (auto split: if_splits)
    ultimately show ?thesis by (rule moves_trans) simp
  qed
qed



lemma restart_loop_failsafe:
  "restart_loop ev a rs ks r = (err, r') \<Longrightarrow> failsafe_stop_mining ev \<Longrightarrow> \<not> has_allowlist a \<Longrightarrow>
   Post_restart ''miningcore'' i \<in> set (requests r') \<Longrightarrow>
   Post_restart ''miningcore'' i \<in> set (requests r)"
proof (induction ks arbitrary: r)
  case Nil
  then show ?case by simp
next
  case (Cons k ks)
  show ?case
  proof (cases rule: restart_loop_Cons_cases [of ev a rs k ks r])
    case skip
    with Cons.prems Cons.IH [of r] show ?thesis by simp
  next
    case (raise e)
    with Cons.prems show ?thesis by auto
  next
    case (failsafe c s')
    with Cons.prems Cons.IH [of "r\<lparr>cur_state := s', clock_reads := Suc (clock_reads r)\<rparr>"]
    show ?thesis by simp
  next
    case (restart_failed c j e)
    with Cons.prems show ?thesis by auto
  next
    case (log_failed c j e)
    with Cons.prems show ?thesis by auto
  next
    case (restarted c j s')
    with Cons.prems
      Cons.IH [of "r\<lparr>requests := requests r @ [Post_restart k j], cur_state := s',
                     clock_reads := Suc (clock_reads r)\<rparr>"]
    show ?thesis by auto
  qed
qed

lemma entries_same: "same_except ks s s' \<Longrightarrow> k \<notin> set ks \<Longrightarrow> entries s' k = entries s k"
  by (simp add: same_except_def entries_def)

lemma moves_entries: "moves ks s s' \<Longrightarrow> k \<notin> set ks \<Longrightarrow> entries s' k = entries s k"
  using entries_same by (auto simp: moves_def)

lemma moves_lookup: "moves ks s s' \<Longrightarrow> k \<notin> set ks \<Longrightarrow> lookup s' k = lookup s k"
  by (simp add: moves_def same_except_def)

lemma moves_log_ok: "moves ks s s' \<Longrightarrow> log_ok s ''alerts'' \<Longrightarrow> log_ok s' ''alerts''"
  by (simp add: moves_def)

lemma moves_mono: "moves ks s s' \<Longrightarrow> set ks \<subseteq> set ks' \<Longrightarrow> moves ks' s s'"
  using moves_trans [OF _ moves_refl, of ks s s' ks ks'] by simp

lemma exited_or_dead_nonempty: "exited_or_dead c \<Longrightarrow> c \<noteq> []"
  by (auto simp: exited_or_dead_def container_state_def dict_get_def py_or_def lower_def)

lemma agent_tick_body_cases:
  obtains
    (list_failed) e where "docker_list_reply ev = Inl e"
      "agent_tick_body ev a r0 = (Some e, r0\<lparr>requests := requests r0 @ [Get_containers]\<rparr>)"
  | (intel_failed) cs e s where "docker_list_reply ev = Inr cs"
      "record_intel cs (cur_state r0) = Inl (e, s)"
      "agent_tick_body ev a r0 =
         (Some e, r0\<lparr>requests := requests r0 @ [Get_containers], cur_state := s\<rparr>)"
  | (unarmed) cs rs s2 where "docker_list_reply ev = Inr cs"
      "record_intel cs (cur_state r0) = Inr (rs, s2)" "\<not> armed_mode ev"
      "agent_tick_body ev a r0 =
         stamp_last_run ev (r0\<lparr>requests := requests r0 @ [Get_containers], cur_state := s2\<rparr>)"
  | (loop_failed) cs rs s2 e r3 where "docker_list_reply ev = Inr cs"
      "record_intel cs (cur_state r0) = Inr (rs, s2)" "armed_mode ev"
      "restart_loop ev a rs role_order
         (r0\<lparr>requests := requests r0 @ [Get_containers], cur_state := s2\<rparr>) = (Some e, r3)"
      "agent_tick_body ev a r0 = (Some e, r3)"
  | (looped) cs rs s2 r3 where "docker_list_reply ev = Inr cs"
      "record_intel cs (cur_state r0) = Inr (rs, s2)" "armed_mode ev"
      "restart_loop ev a rs role_order
         (r0\<lparr>requests := requests r0 @ [Get_containers], cur_state := s2\<rparr>) = (None, r3)"
      "agent_tick_body ev a r0 = stamp_last_run ev r3"
proof (cases "docker_list_reply ev")
  case (Inl e)
  then show thesis using list_failed by (simp add: agent_tick_body_def)
next
  case (Inr cs)
  note cs = this
  show thesis
  proof (cases "record_intel cs (cur_state r0)")
    case (Inl p)
    then obtain e s where "record_intel cs (cur_state r0) = Inl (e, s)" by (cases p) simp
    with cs show thesis using intel_failed by (simp add: agent_tick_body_def)
  next
    case (Inr p)
    then obtain rs s2 where ri: "record_intel cs (cur_state r0) = Inr (rs, s2)" by (cases p) simp
    show thesis
    proof (cases "armed_mode ev")
      case False
      with cs ri show thesis using unarmed by (simp add: agent_tick_body_def)
    next
      case True
      obtain err r3 where l: "restart_loop ev a rs role_order
         (r0\<lparr>requests := requests r0 @ [Get_containers], cur_state := s2\<rparr>) = (err, r3)"
        by (cases "restart_loop ev a rs role_order
         (r0\<lparr>requests := requests r0 @ [Get_containers], cur_state := s2\<rparr>)") blast
      show thesis
      proof (cases err)
        case None
        with cs ri True l show thesis using looped by (simp add: agent_tick_body_def)
      next
        case (Some e)
        with cs ri True l show thesis using loop_failed by (simp add: agent_tick_body_def)
      qed
    qed
  qed
qed

lemma role_order_butlast: "''miningcore'' \<notin> set (butlast role_order)"
  by (simp add: role_order_def)

lemma agent_tick_body_moves:
  assumes "agent_tick_body ev a r0 = (err, r)"
  shows "moves [''intel'', ''actions'', ''alerts'', ''last_run''] (cur_state r0) (cur_state r)"
    and "err \<noteq> None \<Longrightarrow> moves [''intel'', ''actions''] (cur_state r0) (cur_state r)"
proof -
  have "moves [''intel'', ''actions'', ''alerts'', ''last_run''] (cur_state r0) (cur_state r) \<and>
        (err \<noteq> None \<longrightarrow> moves [''intel'', ''actions''] (cur_state r0) (cur_state r))"
  proof (cases rule: agent_tick_body_cases [of ev a r0])
    case (list_failed e)
    with assms show ?thesis by (auto simp: moves_refl)
  next
    case (intel_failed cs e s)
    then have "moves [''intel''] (cur_state r0) s" by (simp add: record_intel_moves)
    with intel_failed assms show ?thesis by (auto intro: moves_mono)
  next
    case (unarmed cs rs s2)
    then have m: "moves [''intel''] (cur_state r0) s2" by (simp add: record_intel_moves)
    from unarmed assms have
      st: "stamp_last_run ev (r0\<lparr>requests := requests r0 @ [Get_containers], cur_state := s2\<rparr>) = (err, r)"
      by simp
    from stamp_last_run_moves [OF st] have m2: "moves [''last_run''] s2 (cur_state r)" by simp
    from unarmed have "is_obj s2" by (simp add: record_intel_moves)
    with st have "err = None" by (auto dest: stamp_last_run_obj)
    moreover from m m2 have "moves [''intel'', ''actions'', ''alerts'', ''last_run''] (cur_state r0) (cur_state r)"
      by (rule moves_trans) simp
    ultimately show ?thesis by simp
  next
    case (loop_failed cs rs s2 e r3)
    then have m: "moves [''intel''] (cur_state r0) s2" by (simp add: record_intel_moves)
    from restart_loop_raised_moves [OF loop_failed(4) role_order_butlast]
    have "moves [''actions''] s2 (cur_state r3)" by simp
    with m have "moves [''intel'', ''actions''] (cur_state r0) (cur_state r3)"
      by (rule moves_trans) simp
    with loop_failed assms show ?thesis by (auto intro: moves_mono)
  next
    case (looped cs rs s2 r3)
    then have m: "moves [''intel''] (cur_state r0) s2" by (simp add: record_intel_moves)
    from restart_loop_moves [OF looped(4)]
    have "moves [''actions'', ''alerts''] s2 (cur_state r3)" by simp
    with m have m3: "moves [''intel'', ''actions'', ''alerts''] (cur_state r0) (cur_state r3)"
      by (rule moves_trans) simp
    from looped assms have st: "stamp_last_run ev r3 = (err, r)" by simp
    from stamp_last_run_moves [OF st] have m2: "moves [''last_run''] (cur_state r3) (cur_state r)"
      by simp
    from looped have "is_obj s2" by (simp add: record_intel_moves)
    with restart_loop_moves [OF looped(4)] have "is_obj (cur_state r3)" by (simp add: moves_obj)
    with st have "err = None" by (rule stamp_last_run_obj)
    moreover from m3 m2 have "moves [''intel'', ''actions'', ''alerts'', ''last_run''] (cur_state r0) (cur_state r)"
      by (rule moves_trans) simp
    ultimately show ?thesis by auto
  qed
  then show "moves [''intel'', ''actions'', ''alerts'', ''last_run''] (cur_state r0) (cur_state r)"
    and "err \<noteq> None \<Longrightarrow> moves [''intel'', ''actions''] (cur_state r0) (cur_state r)"
    by simp_all
qed

lemma agent_tick_body_requests:
  assumes "agent_tick_body ev a r0 = (err, r)" "q \<in> set (requests r)"
  shows "q \<in> set (requests r0) \<or> q = Get_containers \<or>
         (\<exists>k i. q = Post_restart k i \<and> restart_allowed ev k i)"
proof (cases rule: agent_tick_body_cases [of ev a r0])
  case (list_failed e)
  with assms show ?thesis by auto
next
  case (intel_failed cs e s)
  with assms show ?thesis by auto
next
  case (unarmed cs rs s2)
  with assms stamp_last_run_moves [of ev _ err r] show ?thesis by auto
next
  case (loop_failed cs rs s2 e r3)
  from loop_failed have c: "classified ev = Some rs"
    by (simp add: classified_def record_intel_moves)
  from loop_failed assms have "q \<in> set (requests r3)" by simp
  from restart_loop_requests [OF loop_failed(4) this] c loop_failed(3) show ?thesis
    by (auto simp: restart_allowed_def crashed_role_def)
next
  case (looped cs rs s2 r3)
  from looped have c: "classified ev = Some rs"
    by (simp add: classified_def record_intel_moves)
  from looped assms stamp_last_run_moves [of ev r3 err r] have "q \<in> set (requests r3)" by simp
  from restart_loop_requests [OF looped(4) this] c looped(3) show ?thesis
    by (auto simp: restart_allowed_def crashed_role_def)
qed



lemma agent_tick_cases:
  fixes ev f
  defines "b \<equiv> agent_tick_body ev (load_allowlist (allowlist_file f))
                  \<lparr>cur_state = load_state (state_file f), requests = [], clock_reads = 0\<rparr>"
  obtains
    (saved) r where "b = (None, r)"
      "agent_tick ev f = \<lparr>files = save_state (cur_state r) f, issued = requests r, raised = None\<rparr>"
  | (logged) e r s' where "b = (Some e, r)"
      "alert (cur_state r) (clock ev (clock_reads r)) ''error'' ''Agent tick failed.''
         (JObj [(''error'', JStr (str_of_error e))]) = Inr s'"
      "agent_tick ev f = \<lparr>files = save_state s' f, issued = requests r, raised = None\<rparr>"
  | (escaped) e r e' where "b = (Some e, r)"
      "alert (cur_state r) (clock ev (clock_reads r)) ''error'' ''Agent tick failed.''
         (JObj [(''error'', JStr (str_of_error e))]) = Inl e'"
      "agent_tick ev f = \<lparr>files = f, issued = requests r, raised = Some e'\<rparr>"
proof -
  obtain err r where br: "b = (err, r)" by (cases b) blast
  show thesis
  proof (cases err)
    case None
    with br show thesis using saved [of r] by (simp add: agent_tick_def b_def)
  next
    case (Some e)
    show thesis
    proof (cases "alert (cur_state r) (clock ev (clock_reads r)) ''error'' ''Agent tick failed.''
                    (JObj [(''error'', JStr (str_of_error e))])")
      case (Inl e')
      with br Some show thesis using escaped [of e r e'] by (simp add: agent_tick_def b_def)
    next
      case (Inr s')
      with br Some show thesis using logged [of e r s'] by (simp add: agent_tick_def b_def)
    qed
  qed
qed


lemma agent_tick_restarts:
  "Post_restart k i \<in> set (issued (agent_tick ev f)) \<Longrightarrow> restart_allowed ev k i"
proof -
  assume q: "Post_restart k i \<in> set (issued (agent_tick ev f))"
  have "\<exists>err r. agent_tick_body ev (load_allowlist (allowlist_file f))
                  \<lparr>cur_state = load_state (state_file f), requests = [], clock_reads = 0\<rparr> = (err, r) \<and>
                issued (agent_tick ev f) = requests r"
    by (cases rule: agent_tick_cases [of ev f]) auto
  then obtain err r where "agent_tick_body ev (load_allowlist (allowlist_file f))
                  \<lparr>cur_state = load_state (state_file f), requests = [], clock_reads = 0\<rparr> = (err, r)"
    and "issued (agent_tick ev f) = requests r" by blast
  note b = this
  from q b(2) have "Post_restart k i \<in> set (requests r)" by simp
  from agent_tick_body_requests [OF b(1) this] show ?thesis by simp
qed




lemmas example_defs =
  btc_exited_def miningcore_exited_def no_files_def failing_proxy_def miningcore_only_def

lemmas tick_defs =
  agent_tick_def agent_tick_body_def tick_def tick_body_def record_intel_def set_intel_def
  stamp_last_run_def classify_def container_name_def container_image_def container_state_def
  container_summary_def py_or_def dict_get_def role_get_def role_order_def lower_def lower_char_def
  btc_keys_def bch_keys_def dgb_keys_def miningcore_keys_def docker_restart_def
  docker_restart_v1_def alert_def action_log_def push_def setdefault_def append_and_trim_def
  last_200_def save_state_def default_state_def has_allowlist_def default_allowlist_def
  default_field_def py_repr_def failsafe_msg_def

lemma failing_proxy_run:
  "agent_tick failing_proxy no_files =
     \<lparr>files = \<lparr>allowlist_file = Absent,
               state_file = Parsed (JObj
                 [(''last_run'', JNull),
                  (''intel'', JObj
                     [(''containers'', JArr [container_summary btc_exited,
                                             container_summary miningcore_exited]),
                      (''roles'', JObj
                         [(''btc'', JObj [(''id'', JStr ''a1''), (''name'', JStr ''/bitcoin'')]),
                          (''bch'', JObj [(''id'', JNull), (''name'', JNull)]),
                          (''dgb'', JObj [(''id'', JNull), (''name'', JNull)]),
                          (''miningcore'', JObj [(''id'', JStr ''m1''),
                                                 (''name'', JStr ''/miningcore'')])])]),
                  (''actions'', JArr []),
                  (''alerts'', JArr [error_alert 100 (RuntimeError ''Restart failed: 500 boom'')])])\<rparr>,
      issued = [Get_containers, Post_restart ''btc'' (JStr ''a1'')],
      raised = None\<rparr>"
  by (simp add: example_defs tick_defs error_alert_def)

lemma critical_alert_item:
  "JObj [(''ts'', JNum t), (''level'', JStr ''critical''), (''msg'', JStr failsafe_msg),
         (''meta'', py_or (JObj [(''role'', JStr ''miningcore'')]) (JObj []))] = critical_alert t"
  by (simp add: critical_alert_def py_or_def)

lemma failsafe_step:
  assumes "failsafe_stop_mining ev" "\<not> has_allowlist a" "role_get rs ''miningcore'' = Some c"
    "exited_or_dead c"
  shows "restart_loop ev a rs (''miningcore'' # ks) r =
     (case push (cur_state r) ''alerts'' (critical_alert (clock ev (clock_reads r))) of
        Inl e \<Rightarrow> (Some e, r)
      | Inr s' \<Rightarrow>
          restart_loop ev a rs ks (r\<lparr>cur_state := s', clock_reads := Suc (clock_reads r)\<rparr>))"
proof -
  from assms(4) have ne: "c \<noteq> []" by (rule exited_or_dead_nonempty)
  from assms(4) obtain st where "container_state c = Inr st" "st = ''exited'' \<or> st = ''dead''"
    by (auto simp: exited_or_dead_def)
  with assms(1-3) ne show ?thesis
    by (auto simp: alert_push critical_alert_item)
qed

lemma restart_loop_critical:
  assumes "failsafe_stop_mining ev" "\<not> has_allowlist a" "role_get rs ''miningcore'' = Some c"
    "exited_or_dead c"
  shows "restart_loop ev a rs ks r = (None, r') \<Longrightarrow> ks \<noteq> [] \<Longrightarrow> last ks = ''miningcore'' \<Longrightarrow>
         ''miningcore'' \<notin> set (butlast ks) \<Longrightarrow>
         \<exists>t. entries (cur_state r') ''alerts'' =
               last_200 (entries (cur_state r) ''alerts'' @ [critical_alert t])"
proof (induction ks arbitrary: r)
  case Nil
  then show ?case by simp
next
  case (Cons k ks)
  show ?case
  proof (cases "ks = []")
    case True
    with Cons.prems have k: "k = ''miningcore''" by simp
    from Cons.prems(1) True k failsafe_step [OF assms, of "[]" r]
    obtain s' where p: "push (cur_state r) ''alerts'' (critical_alert (clock ev (clock_reads r))) = Inr s'"
      and "r' = r\<lparr>cur_state := s', clock_reads := Suc (clock_reads r)\<rparr>"
      by (auto split: sum.splits)
    with push_result [OF p] show ?thesis by auto
  next
    case False
    with Cons.prems have k: "k \<noteq> ''miningcore''" and l: "last ks = ''miningcore''"
      and b: "''miningcore'' \<notin> set (butlast ks)" by auto
    show ?thesis
    proof (cases rule: restart_loop_Cons_cases [of ev a rs k ks r])
      case skip
      with Cons.prems(1) Cons.IH [OF _ False l b, of r] show ?thesis by simp
    next
      case (raise e)
      with Cons.prems(1) show ?thesis by simp
    next
      case (failsafe c' s')
      with k show ?thesis by simp
    next
      case (restart_failed c' i e)
      with Cons.prems(1) show ?thesis by simp
    next
      case (log_failed c' i e)
      with Cons.prems(1) show ?thesis by simp
    next
      case (restarted c' i s')
      from restarted(6) have "moves [''actions''] (cur_state r) s'"
        by (simp add: action_log_push push_moves)
      then have "entries s' ''alerts'' = entries (cur_state r) ''alerts''"
        by (rule moves_entries) simp
      with restarted(7) Cons.prems(1)
        Cons.IH [OF _ False l b, of "r\<lparr>requests := requests r @ [Post_restart k i], cur_state := s',
                                        clock_reads := Suc (clock_reads r)\<rparr>"]
      show ?thesis by simp
    qed
  qed
qed

text \<open>
  C1, as stated, fails: the failsafe is reached only if nothing raised before it in the
  tick. With a crashed \<^verbatim>\<open>bitcoin\<close> container whose restart the proxy answers with status
  500, the tick leaves its loop at the role \<^verbatim>\<open>btc\<close>; the crashed \<^verbatim>\<open>miningcore\<close> container
  is not restarted, and the only entry appended to \<^verbatim>\<open>alerts\<close> is the error entry of the
  \<^verbatim>\<open>except\<close> clause, not a critical one.
\<close>

theorem failsafe_alert_counterexample:
  "armed_mode failing_proxy \<and> failsafe_stop_mining failing_proxy \<and>
   \<not> has_allowlist (load_allowlist (allowlist_file no_files)) \<and>
   classified failing_proxy =
     Some [(''btc'', Some btc_exited), (''bch'', None), (''dgb'', None),
           (''miningcore'', Some miningcore_exited)] \<and>
   container_state miningcore_exited = Inr ''exited'' \<and>
   issued (agent_tick failing_proxy no_files) = [Get_containers, Post_restart ''btc'' (JStr ''a1'')] \<and>
   entries (load_state (state_file (files (agent_tick failing_proxy no_files)))) ''alerts'' =
     [error_alert 100 (RuntimeError ''Restart failed: 500 boom'')]"
proof -
  have "entries (load_state (state_file (files (agent_tick failing_proxy no_files)))) ''alerts'' =
          [error_alert 100 (RuntimeError ''Restart failed: 500 boom'')]"
    by (simp add: failing_proxy_run entries_def)
  moreover have "issued (agent_tick failing_proxy no_files) =
                   [Get_containers, Post_restart ''btc'' (JStr ''a1'')]"
    by (simp add: failing_proxy_run)
  moreover have "classified failing_proxy =
     Some [(''btc'', Some btc_exited), (''bch'', None), (''dgb'', None),
           (''miningcore'', Some miningcore_exited)]"
    by (simp add: classified_def example_defs tick_defs)
  moreover have "container_state miningcore_exited = Inr ''exited''"
    by (simp add: example_defs tick_defs)
  moreover have "\<not> has_allowlist (load_allowlist (allowlist_file no_files))"
    by (simp add: example_defs tick_defs)
  ultimately show ?thesis by (simp add: failing_proxy_def)
qed

text \<open>
  C1, amended. In a tick in which \<open>ARMED_MODE\<close> is true, the classified \<^verbatim>\<open>miningcore\<close>
  container has State \<^verbatim>\<open>exited\<close> or \<^verbatim>\<open>dead\<close>, \<open>FAILSAFE_STOP_MINING\<close> is true and the loaded
  allowlist has no allowed address, no restart is requested for the role \<^verbatim>\<open>miningcore\<close>;
  and when no exception reaches the \<^verbatim>\<open>except\<close> clause of the tick, the saved state's
  \<^verbatim>\<open>alerts\<close> list is the loaded one with a critical entry appended (trimmed to 200).
\<close>

theorem failsafe_refuses_miningcore_restart:
  assumes "armed_mode ev" "failsafe_stop_mining ev"
    "\<not> has_allowlist (load_allowlist (allowlist_file f))"
    "classified ev = Some rs" "role_get rs ''miningcore'' = Some c" "exited_or_dead c"
  shows "(\<forall>i. Post_restart ''miningcore'' i \<notin> set (issued (agent_tick ev f))) \<and>
         (caught ev f = None \<longrightarrow>
            (\<exists>s' t. files (agent_tick ev f) = save_state s' f \<and> raised (agent_tick ev f) = None \<and>
                    entries s' ''alerts'' =
                      last_200 (entries (load_state (state_file f)) ''alerts'' @ [critical_alert t])))"
proof (intro conjI allI impI)
  fix i
  define a where "a = load_allowlist (allowlist_file f)"
  define r0 where "r0 = \<lparr>cur_state = load_state (state_file f), requests = [], clock_reads = 0\<rparr>"
  obtain err r where b: "agent_tick_body ev a r0 = (err, r)" by (cases "agent_tick_body ev a r0") blast
  have i: "issued (agent_tick ev f) = requests r"
    using b by (cases rule: agent_tick_cases [of ev f]) (auto simp: a_def r0_def)
  have "Post_restart ''miningcore'' i \<notin> set (requests r)"
  proof (cases rule: agent_tick_body_cases [of ev a r0])
    case (list_failed e)
    with b show ?thesis by (auto simp: r0_def)
  next
    case (intel_failed cs e s)
    with b show ?thesis by (auto simp: r0_def)
  next
    case (unarmed cs rs' s2)
    with assms(1) show ?thesis by simp
  next
    case (loop_failed cs rs' s2 e r3)
    from restart_loop_failsafe [OF loop_failed(4) assms(2), of i] assms(3) loop_failed(5) b
    show ?thesis by (auto simp: a_def r0_def)
  next
    case (looped cs rs' s2 r3)
    from restart_loop_failsafe [OF looped(4) assms(2), of i] assms(3) looped(5) b
      stamp_last_run_moves [of ev r3 err r]
    show ?thesis by (auto simp: a_def r0_def)
  qed
  with i show "Post_restart ''miningcore'' i \<notin> set (issued (agent_tick ev f))" by simp
next
  assume c: "caught ev f = None"
  define a where "a = load_allowlist (allowlist_file f)"
  define r0 where "r0 = \<lparr>cur_state = load_state (state_file f), requests = [], clock_reads = 0\<rparr>"
  from c obtain r where b: "agent_tick_body ev a r0 = (None, r)"
    by (cases "agent_tick_body ev a r0") (auto simp: caught_def a_def r0_def)
  have t: "agent_tick ev f = \<lparr>files = save_state (cur_state r) f, issued = requests r, raised = None\<rparr>"
    using b by (cases rule: agent_tick_cases [of ev f]) (auto simp: a_def r0_def)
  have "\<exists>t. entries (cur_state r) ''alerts'' =
              last_200 (entries (load_state (state_file f)) ''alerts'' @ [critical_alert t])"
  proof (cases rule: agent_tick_body_cases [of ev a r0])
    case (list_failed e)
    with b show ?thesis by simp
  next
    case (intel_failed cs e s)
    with b show ?thesis by simp
  next
    case (unarmed cs rs' s2)
    with assms(1) show ?thesis by simp
  next
    case (loop_failed cs rs' s2 e r3)
    with b show ?thesis by simp
  next
    case (looped cs rs' s2 r3)
    from looped(1,2) assms(4) have rs: "rs' = rs"
      by (simp add: classified_def record_intel_moves)
    from looped(2) have "moves [''intel''] (cur_state r0) s2" by (simp add: record_intel_moves)
    then have "entries s2 ''alerts'' = entries (cur_state r0) ''alerts''"
      by (rule moves_entries) simp
    then have e0: "entries s2 ''alerts'' = entries (load_state (state_file f)) ''alerts''"
      by (simp add: r0_def)
    have a': "\<not> has_allowlist a" using assms(3) by (simp add: a_def)
    from restart_loop_critical [OF assms(2) a' assms(5,6) looped(4) [unfolded rs]]
    obtain t where "entries (cur_state r3) ''alerts'' = last_200 (entries s2 ''alerts'' @ [critical_alert t])"
      by (auto simp: role_order_def)
    moreover from looped(5) b have "stamp_last_run ev r3 = (None, r)" by simp
    from stamp_last_run_moves [OF this] have "moves [''last_run''] (cur_state r3) (cur_state r)"
      by simp
    then have "entries (cur_state r) ''alerts'' = entries (cur_state r3) ''alerts''"
      by (rule moves_entries) simp
    ultimately show ?thesis using e0 by auto
  qed
  with t show "\<exists>s' t. files (agent_tick ev f) = save_state s' f \<and> raised (agent_tick ev f) = None \<and>
                    entries s' ''alerts'' =
                      last_200 (entries (load_state (state_file f)) ''alerts'' @ [critical_alert t])"
    by auto
qed

lemma miningcore_only_run:
  "agent_tick miningcore_only no_files =
     \<lparr>files = \<lparr>allowlist_file = Absent,
               state_file = Parsed (JObj
                 [(''last_run'', JNum 100),
                  (''intel'', JObj
                     [(''containers'', JArr [container_summary miningcore_exited]),
                      (''roles'', JObj
                         [(''btc'', JObj [(''id'', JNull), (''name'', JNull)]),
                          (''bch'', JObj [(''id'', JNull), (''name'', JNull)]),
                          (''dgb'', JObj [(''id'', JNull), (''name'', JNull)]),
                          (''miningcore'', JObj [(''id'', JStr ''m1''),
                                                 (''name'', JStr ''/miningcore'')])])]),
                  (''actions'', JArr []),
                  (''alerts'', JArr [critical_alert 100])])\<rparr>,
      issued = [Get_containers],
      raised = None\<rparr>"
  by (simp add: example_defs tick_defs critical_alert_def)

theorem failsafe_refuses_miningcore_restart_witness:
  "armed_mode miningcore_only \<and> failsafe_stop_mining miningcore_only \<and>
   \<not> has_allowlist (load_allowlist (allowlist_file no_files)) \<and>
   classified miningcore_only =
     Some [(''btc'', None), (''bch'', None), (''dgb'', None), (''miningcore'', Some miningcore_exited)] \<and>
   exited_or_dead miningcore_exited \<and>
   (\<forall>i. Post_restart ''miningcore'' i \<notin> set (issued (agent_tick miningcore_only no_files))) \<and>
   caught miningcore_only no_files = None \<and>
   (\<exists>s' t. files (agent_tick miningcore_only no_files) = save_state s' no_files \<and>
           raised (agent_tick miningcore_only no_files) = None \<and>
           entries s' ''alerts'' =
             last_200 (entries (load_state (state_file no_files)) ''alerts'' @ [critical_alert t]))"
proof -
  have h1: "armed_mode miningcore_only" and h2: "failsafe_stop_mining miningcore_only"
    by (simp_all add: miningcore_only_def)
  have h3: "\<not> has_allowlist (load_allowlist (allowlist_file no_files))"
    by (simp add: example_defs tick_defs)
  have h4: "classified miningcore_only =
     Some [(''btc'', None), (''bch'', None), (''dgb'', None), (''miningcore'', Some miningcore_exited)]"
    by (simp add: classified_def example_defs tick_defs)
  have h5: "role_get [(''btc'', None), (''bch'', None), (''dgb'', None),
                      (''miningcore'', Some miningcore_exited)] ''miningcore'' = Some miningcore_exited"
    by (simp add: role_get_def)
  have h6: "exited_or_dead miningcore_exited"
    by (simp add: exited_or_dead_def example_defs tick_defs)
  have c: "caught miningcore_only no_files = None"
    by (simp add: caught_def example_defs tick_defs)
  from failsafe_refuses_miningcore_restart [OF h1 h2 h3 h4 h5 h6] h1 h2 h3 h4 h6 c
  show ?thesis by simp
qed

lemma restart_loop_v1_Cons_cases:
  obtains
    (skip) "restart_loop_v1 ev rs (k # ks) r = restart_loop_v1 ev rs ks r"
  | (raise) e where "restart_loop_v1 ev rs (k # ks) r = (Some e, r)"
  | (restart_failed) c i e where "role_get rs k = Some c" "exited_or_dead c"
      "map_of c ''Id'' = Some i"
      "docker_restart_v1 (docker_restart_reply ev (length (requests r)) i) = Inl e"
      "restart_loop_v1 ev rs (k # ks) r = (Some e, r\<lparr>requests := requests r @ [Post_restart k i]\<rparr>)"
  | (log_failed) c i e where "role_get rs k = Some c" "exited_or_dead c"
      "map_of c ''Id'' = Some i"
      "docker_restart_v1 (docker_restart_reply ev (length (requests r)) i) = Inr ()"
      "restart_loop_v1 ev rs (k # ks) r =
         (Some e, r\<lparr>requests := requests r @ [Post_restart k i],
                     clock_reads := Suc (clock_reads r)\<rparr>)"
  | (restarted) c i s' where "role_get rs k = Some c" "exited_or_dead c"
      "map_of c ''Id'' = Some i"
      "docker_restart_v1 (docker_restart_reply ev (length (requests r)) i) = Inr ()"
      "push (cur_state r) ''actions''
         (JObj [(''ts'', JNum (clock ev (clock_reads r))), (''kind'', JStr ''restart''),
                (''role'', JStr k)]) = Inr s'"
      "restart_loop_v1 ev rs (k # ks) r =
         restart_loop_v1 ev rs ks
           (r\<lparr>requests := requests r @ [Post_restart k i], clock_reads := Suc (clock_reads r),
              cur_state := s'\<rparr>)"
proof (cases "role_get rs k")
  case None
  then show thesis using skip by simp
next
  case (Some c)
  note c = this
  show thesis
  proof (cases "c = []")
    case True
    with c show thesis using skip by simp
  next
    case False
    note ne = this
    show thesis
    proof (cases "container_state c")
      case (Inl e)
      with c ne show thesis using raise by simp
    next
      case (Inr st)
      note st = this
      show thesis
      proof (cases "st = ''exited'' \<or> st = ''dead''")
        case False
        with c ne st show thesis using skip by simp
      next
        case True
        note x = this
        with st have ed: "exited_or_dead c" by (auto simp: exited_or_dead_def)
        show thesis
        proof (cases "map_of c ''Id''")
          case None
          with c ne st x show thesis using raise by auto
        next
          case (Some i)
          note i = this
          show thesis
          proof (cases "docker_restart_v1 (docker_restart_reply ev (length (requests r)) i)")
            case (Inl e)
            with c ne st x i ed show thesis
              using restart_failed [of c i e] by (auto simp: Let_def)
          next
            case (Inr u)
            note ok = this
            show thesis
            proof (cases "push (cur_state r) ''actions''
                            (JObj [(''ts'', JNum (clock ev (clock_reads r))),
                                   (''kind'', JStr ''restart''), (''role'', JStr k)])")
              case (Inl e)
              with c ne st x i ed ok show thesis
                using log_failed [of c i e] by (auto simp: Let_def)
            next
              case (Inr s')
              with c ne st x i ed ok show thesis
                using restarted [of c i s'] by (auto simp: Let_def)
            qed
          qed
        qed
      qed
    qed
  qed
qed

lemma restart_loop_v1_requests:
  "restart_loop_v1 ev rs ks r = (err, r') \<Longrightarrow> q \<in> set (requests r') \<Longrightarrow>
   q \<in> set (requests r) \<or>
   (\<exists>k i c. q = Post_restart k i \<and> k \<in> set ks \<and> role_get rs k = Some c \<and>
            map_of c ''Id'' = Some i \<and> exited_or_dead c)"
proof (induction ks arbitrary: r)
  case Nil
  then show ?case by simp
next
  case (Cons k ks)
  show ?case
  proof (cases rule: restart_loop_v1_Cons_cases [of ev rs k ks r])
    case skip
    with Cons.prems Cons.IH [of r] show ?thesis by auto
  next
    case (raise e)
    with Cons.prems show ?thesis by auto
  next
    case (restart_failed c i e)
    with Cons.prems show ?thesis by auto
  next
    case (log_failed c i e)
    with Cons.prems show ?thesis by auto
  next
    case (restarted c i s')
    with Cons.prems
      Cons.IH [of "r\<lparr>requests := requests r @ [Post_restart k i],
                     clock_reads := Suc (clock_reads r), cur_state := s'\<rparr>"]
    show ?thesis by auto
  qed
qed

lemma restart_loop_v1_moves:
  "restart_loop_v1 ev rs ks r = (err, r') \<Longrightarrow> moves [''actions''] (cur_state r) (cur_state r')"
proof (induction ks arbitrary: r)
  case Nil
  then show ?case by (simp add: moves_refl)
next
  case (Cons k ks)
  show ?case
  proof (cases rule: restart_loop_v1_Cons_cases [of ev rs k ks r])
    case skip
    with Cons.prems Cons.IH [of r] show ?thesis by simp
  next
    case (raise e)
    with Cons.prems show ?thesis by (auto simp: moves_refl)
  next
    case (restart_failed c i e)
    with Cons.prems show ?thesis by (auto simp: moves_refl)
  next
    case (log_failed c i e)
    with Cons.prems show ?thesis by (auto simp: moves_refl)
  next
    case (restarted c i s')
    from restarted(5) have "moves [''actions''] (cur_state r) s'" by (rule push_moves)
    moreover from restarted(6) Cons.prems
      Cons.IH [of "r\<lparr>requests := requests r @ [Post_restart k i],
                     clock_reads := Suc (clock_reads r), cur_state := s'\<rparr>"]
    have "moves [''actions''] s' (cur_state r')" by simp
    ultimately show ?thesis by (rule moves_trans) simp
  qed
qed


lemma tick_body_cases:
  obtains
    (list_failed) e where "docker_list_reply ev = Inl e"
      "tick_body ev r0 = (Some e, r0\<lparr>requests := requests r0 @ [Get_containers]\<rparr>)"
  | (intel_failed) cs e s where "docker_list_reply ev = Inr cs"
      "record_intel cs (cur_state r0) = Inl (e, s)"
      "tick_body ev r0 =
         (Some e, r0\<lparr>requests := requests r0 @ [Get_containers], cur_state := s\<rparr>)"
  | (unarmed) cs rs s2 where "docker_list_reply ev = Inr cs"
      "record_intel cs (cur_state r0) = Inr (rs, s2)" "\<not> armed_mode ev"
      "tick_body ev r0 =
         stamp_last_run ev (r0\<lparr>requests := requests r0 @ [Get_containers], cur_state := s2\<rparr>)"
  | (loop_failed) cs rs s2 e r3 where "docker_list_reply ev = Inr cs"
      "record_intel cs (cur_state r0) = Inr (rs, s2)" "armed_mode ev"
      "restart_loop_v1 ev rs role_order
         (r0\<lparr>requests := requests r0 @ [Get_containers], cur_state := s2\<rparr>) = (Some e, r3)"
      "tick_body ev r0 = (Some e, r3)"
  | (looped) cs rs s2 r3 where "docker_list_reply ev = Inr cs"
      "record_intel cs (cur_state r0) = Inr (rs, s2)" "armed_mode ev"
      "restart_loop_v1 ev rs role_order
         (r0\<lparr>requests := requests r0 @ [Get_containers], cur_state := s2\<rparr>) = (None, r3)"
      "tick_body ev r0 = stamp_last_run ev r3"
proof (cases "docker_list_reply ev")
  case (Inl e)
  then show thesis using list_failed by (simp add: tick_body_def)
next
  case (Inr cs)
  note cs = this
  show thesis
  proof (cases "record_intel cs (cur_state r0)")
    case (Inl p)
    then obtain e s where "record_intel cs (cur_state r0) = Inl (e, s)" by (cases p) simp
    with cs show thesis using intel_failed by (simp add: tick_body_def)
  next
    case (Inr p)
    then obtain rs s2 where ri: "record_intel cs (cur_state r0) = Inr (rs, s2)" by (cases p) simp
    show thesis
    proof (cases "armed_mode ev")
      case False
      with cs ri show thesis using unarmed by (simp add: tick_body_def)
    next
      case True
      obtain err r3 where l: "restart_loop_v1 ev rs role_order
         (r0\<lparr>requests := requests r0 @ [Get_containers], cur_state := s2\<rparr>) = (err, r3)"
        by (cases "restart_loop_v1 ev rs role_order
         (r0\<lparr>requests := requests r0 @ [Get_containers], cur_state := s2\<rparr>)") blast
      show thesis
      proof (cases err)
        case None
        with cs ri True l show thesis using looped by (simp add: tick_body_def)
      next
        case (Some e)
        with cs ri True l show thesis using loop_failed by (simp add: tick_body_def)
      qed
    qed
  qed
qed

lemma tick_body_moves:
  assumes "tick_body ev r0 = (err, r)"
  shows "moves [''intel'', ''actions'', ''alerts'', ''last_run''] (cur_state r0) (cur_state r)"
    and "err \<noteq> None \<Longrightarrow> moves [''intel'', ''actions''] (cur_state r0) (cur_state r)"
proof -
  have "moves [''intel'', ''actions'', ''alerts'', ''last_run''] (cur_state r0) (cur_state r) \<and>
        (err \<noteq> None \<longrightarrow> moves [''intel'', ''actions''] (cur_state r0) (cur_state r))"
  proof (cases rule: tick_body_cases [of ev r0])
    case (list_failed e)
    with assms show ?thesis by (auto simp: moves_refl)
  next
    case (intel_failed cs e s)
    then have "moves [''intel''] (cur_state r0) s" by (simp add: record_intel_moves)
    with intel_failed assms show ?thesis by (auto intro: moves_mono)
  next
    case (unarmed cs rs s2)
    then have m: "moves [''intel''] (cur_state r0) s2" by (simp add: record_intel_moves)
    from unarmed assms have
      st: "stamp_last_run ev (r0\<lparr>requests := requests r0 @ [Get_containers], cur_state := s2\<rparr>) = (err, r)"
      by simp
    from stamp_last_run_moves [OF st] have m2: "moves [''last_run''] s2 (cur_state r)" by simp
    from unarmed have "is_obj s2" by (simp add: record_intel_moves)
    with st have "err = None" by (auto dest: stamp_last_run_obj)
    moreover from m m2 have "moves [''intel'', ''actions'', ''alerts'', ''last_run''] (cur_state r0) (cur_state r)"
      by (rule moves_trans) simp
    ultimately show ?thesis by simp
  next
    case (loop_failed cs rs s2 e r3)
    then have m: "moves [''intel''] (cur_state r0) s2" by (simp add: record_intel_moves)
    from restart_loop_v1_moves [OF loop_failed(4)]
    have "moves [''actions''] s2 (cur_state r3)" by simp
    with m have "moves [''intel'', ''actions''] (cur_state r0) (cur_state r3)"
      by (rule moves_trans) simp
    with loop_failed assms show ?thesis by (auto intro: moves_mono)
  next
    case (looped cs rs s2 r3)
    then have m: "moves [''intel''] (cur_state r0) s2" by (simp add: record_intel_moves)
    from restart_loop_v1_moves [OF looped(4)]
    have l: "moves [''actions''] s2 (cur_state r3)" by simp
    with m have m3: "moves [''intel'', ''actions''] (cur_state r0) (cur_state r3)"
      by (rule moves_trans) simp
    from looped assms have st: "stamp_last_run ev r3 = (err, r)" by simp
    from stamp_last_run_moves [OF st] have m2: "moves [''last_run''] (cur_state r3) (cur_state r)"
      by simp
    from looped have "is_obj s2" by (simp add: record_intel_moves)
    with l have "is_obj (cur_state r3)" by (simp add: moves_obj)
    with st have "err = None" by (rule stamp_last_run_obj)
    moreover from m3 m2 have "moves [''intel'', ''actions'', ''alerts'', ''last_run''] (cur_state r0) (cur_state r)"
      by (rule moves_trans) simp
    ultimately show ?thesis by auto
  qed
  then show "moves [''intel'', ''actions'', ''alerts'', ''last_run''] (cur_state r0) (cur_state r)"
    and "err \<noteq> None \<Longrightarrow> moves [''intel'', ''actions''] (cur_state r0) (cur_state r)"
    by simp_all
qed

lemma tick_body_requests:
  assumes "tick_body ev r0 = (err, r)" "q \<in> set (requests r)"
  shows "q \<in> set (requests r0) \<or> q = Get_containers \<or>
         (\<exists>k i. q = Post_restart k i \<and> restart_allowed ev k i)"
proof (cases rule: tick_body_cases [of ev r0])
  case (list_failed e)
  with assms show ?thesis by auto
next
  case (intel_failed cs e s)
  with assms show ?thesis by auto
next
  case (unarmed cs rs s2)
  with assms stamp_last_run_moves [of ev _ err r] show ?thesis by auto
next
  case (loop_failed cs rs s2 e r3)
  from loop_failed have c: "classified ev = Some rs"
    by (simp add: classified_def record_intel_moves)
  from loop_failed assms have "q \<in> set (requests r3)" by simp
  from restart_loop_v1_requests [OF loop_failed(4) this] c loop_failed(3) show ?thesis
    by (auto simp: restart_allowed_def crashed_role_def)
next
  case (looped cs rs s2 r3)
  from looped have c: "classified ev = Some rs"
    by (simp add: classified_def record_intel_moves)
  from looped assms stamp_last_run_moves [of ev r3 err r] have "q \<in> set (requests r3)" by simp
  from restart_loop_v1_requests [OF looped(4) this] c looped(3) show ?thesis
    by (auto simp: restart_allowed_def crashed_role_def)
qed


lemma tick_cases:
  fixes ev f
  defines "b \<equiv> tick_body ev \<lparr>cur_state = load_state (state_file f), requests = [], clock_reads = 0\<rparr>"
  obtains
    (saved) r where "b = (None, r)"
      "tick ev f = \<lparr>files = save_state (cur_state r) f, issued = requests r, raised = None\<rparr>"
  | (logged) e r s' where "b = (Some e, r)"
      "push (cur_state r) ''alerts'' (error_alert_v1 (clock ev (clock_reads r)) e) = Inr s'"
      "tick ev f = \<lparr>files = save_state s' f, issued = requests r, raised = None\<rparr>"
  | (escaped) e r e' where "b = (Some e, r)"
      "push (cur_state r) ''alerts'' (error_alert_v1 (clock ev (clock_reads r)) e) = Inl e'"
      "tick ev f = \<lparr>files = f, issued = requests r, raised = Some e'\<rparr>"
proof -
  obtain err r where br: "b = (err, r)" by (cases b) blast
  show thesis
  proof (cases err)
    case None
    with br show thesis using saved [of r] by (simp add: tick_def b_def)
  next
    case (Some e)
    show thesis
    proof (cases "push (cur_state r) ''alerts'' (error_alert_v1 (clock ev (clock_reads r)) e)")
      case (Inl e')
      with br Some show thesis using escaped [of e r e']
        by (simp add: tick_def b_def error_alert_v1_def)
    next
      case (Inr s')
      with br Some show thesis using logged [of e r s']
        by (simp add: tick_def b_def error_alert_v1_def)
    qed
  qed
qed


lemma tick_restarts:
  "Post_restart k i \<in> set (issued (tick ev f)) \<Longrightarrow> restart_allowed ev k i"
proof -
  assume q: "Post_restart k i \<in> set (issued (tick ev f))"
  have "\<exists>err r. tick_body ev \<lparr>cur_state = load_state (state_file f), requests = [], clock_reads = 0\<rparr>
                  = (err, r) \<and> issued (tick ev f) = requests r"
    by (cases rule: tick_cases [of ev f]) auto
  then obtain err r where
    b: "tick_body ev \<lparr>cur_state = load_state (state_file f), requests = [], clock_reads = 0\<rparr> = (err, r)"
       "issued (tick ev f) = requests r" by blast
  from q b(2) have "Post_restart k i \<in> set (requests r)" by simp
  from tick_body_requests [OF b(1) this] show ?thesis by simp
qed




text \<open>
  C2. A restart request is issued, in either version, only when \<open>ARMED_MODE\<close> is true and
  the request is for a role among \<^verbatim>\<open>btc\<close>, \<^verbatim>\<open>bch\<close>, \<^verbatim>\<open>dgb\<close>, \<^verbatim>\<open>miningcore\<close> to which the
  classifier gave a container with the requested id whose State, lower-cased, is
  \<^verbatim>\<open>exited\<close> or \<^verbatim>\<open>dead\<close>. In particular a tick with \<open>ARMED_MODE\<close> false issues no restart
  request.
\<close>

theorem restart_only_when_allowed:
  "(Post_restart k i \<in> set (issued (agent_tick ev f)) \<longrightarrow> restart_allowed ev k i) \<and>
   (Post_restart k' i' \<in> set (issued (tick ev f)) \<longrightarrow> restart_allowed ev k' i') \<and>
   (\<not> armed_mode ev' \<longrightarrow>
      (\<forall>k i. Post_restart k i \<notin> set (issued (agent_tick ev' f')) \<and>
             Post_restart k i \<notin> set (issued (tick ev' f'))))"
proof (intro conjI impI allI)
  assume "Post_restart k i \<in> set (issued (agent_tick ev f))"
  then show "restart_allowed ev k i" by (rule agent_tick_restarts)
next
  assume "Post_restart k' i' \<in> set (issued (tick ev f))"
  then show "restart_allowed ev k' i'" by (rule tick_restarts)
next
  fix k i
  assume "\<not> armed_mode ev'"
  then have "\<not> restart_allowed ev' k i" by (simp add: restart_allowed_def)
  then show "Post_restart k i \<notin> set (issued (agent_tick ev' f'))"
    using agent_tick_restarts by blast
next
  fix k i
  assume "\<not> armed_mode ev'"
  then have "\<not> restart_allowed ev' k i" by (simp add: restart_allowed_def)
  then show "Post_restart k i \<notin> set (issued (tick ev' f'))"
    using tick_restarts by blast
qed

lemma failing_proxy_run_v1:
  "issued (tick failing_proxy no_files) = [Get_containers, Post_restart ''btc'' (JStr ''a1'')]"
  by (simp add: example_defs tick_defs)

theorem restart_only_when_allowed_witness:
  "Post_restart ''btc'' (JStr ''a1'') \<in> set (issued (agent_tick failing_proxy no_files)) \<and>
   restart_allowed failing_proxy ''btc'' (JStr ''a1'') \<and>
   Post_restart ''btc'' (JStr ''a1'') \<in> set (issued (tick failing_proxy no_files)) \<and>
   \<not> armed_mode unarmed_proxy \<and>
   (\<forall>k i. Post_restart k i \<notin> set (issued (agent_tick unarmed_proxy no_files)) \<and>
          Post_restart k i \<notin> set (issued (tick unarmed_proxy no_files)))"
proof -
  have a: "Post_restart ''btc'' (JStr ''a1'') \<in> set (issued (agent_tick failing_proxy no_files))"
    by (simp add: failing_proxy_run)
  have b: "Post_restart ''btc'' (JStr ''a1'') \<in> set (issued (tick failing_proxy no_files))"
    by (simp add: failing_proxy_run_v1)
  have c: "\<not> armed_mode unarmed_proxy" by (simp add: unarmed_proxy_def)
  from restart_only_when_allowed
    [of "''btc''" "JStr ''a1''" failing_proxy no_files "''btc''" "JStr ''a1''" unarmed_proxy no_files]
    a b c
  show ?thesis by simp
qed







subsection \<open>The condition on the loaded state is an invariant\<close>

text \<open>
  The condition on the loaded state in the amended C5 and C6 holds of the default state,
  and a tick that starts from a state with it saves a state with it: it is an invariant
  of the state file as long as only the agent writes the file.
\<close>

lemma default_state_alerts_list:
  "log_ok (load_state Absent) ''alerts''" "log_ok (load_state Garbage) ''alerts''"
  by (simp_all add: default_state_def log_ok_def)

lemma agent_tick_keeps_alerts_list:
  assumes "log_ok (load_state (state_file f)) ''alerts''"
  shows "log_ok (load_state (state_file (files (agent_tick ev f)))) ''alerts''"
proof (cases rule: agent_tick_cases [of ev f])
  case (saved r)
  from agent_tick_body_moves(1) [OF saved(1)] assms have "log_ok (cur_state r) ''alerts''"
    by (auto dest: moves_log_ok)
  with saved(2) show ?thesis by (simp add: save_state_def)
next
  case (logged e r s')
  from agent_tick_body_moves(1) [OF logged(1)] assms have "log_ok (cur_state r) ''alerts''"
    by (auto dest: moves_log_ok)
  moreover from logged(2) have "moves [''alerts''] (cur_state r) s'"
    by (simp add: alert_push push_moves)
  ultimately have "log_ok s' ''alerts''" by (auto dest: moves_log_ok)
  with logged(3) show ?thesis by (simp add: save_state_def)
next
  case (escaped e r e')
  with assms show ?thesis by simp
qed

lemma tick_keeps_alerts_list:
  assumes "log_ok (load_state (state_file f)) ''alerts''"
  shows "log_ok (load_state (state_file (files (tick ev f)))) ''alerts''"
proof (cases rule: tick_cases [of ev f])
  case (saved r)
  from tick_body_moves(1) [OF saved(1)] assms have "log_ok (cur_state r) ''alerts''"
    by (auto dest: moves_log_ok)
  with saved(2) show ?thesis by (simp add: save_state_def)
next
  case (logged e r s')
  from tick_body_moves(1) [OF logged(1)] assms have "log_ok (cur_state r) ''alerts''"
    by (auto dest: moves_log_ok)
  moreover from logged(2) have "moves [''alerts''] (cur_state r) s'" by (rule push_moves)
  ultimately have "log_ok s' ''alerts''" by (auto dest: moves_log_ok)
  with logged(3) show ?thesis by (simp add: save_state_def)
next
  case (escaped e r e')
  with assms show ?thesis by simp
qed

lemma api_set_allowlist_keeps_alerts_list:
  assumes "log_ok (load_state (state_file f)) ''alerts''"
  shows "log_ok (load_state (state_file (snd (api_set_allowlist payload ts f)))) ''alerts''"
    and "log_ok (load_state (state_file (snd (api_set_allowlist_v1 payload f)))) ''alerts''"
proof -
  show "log_ok (load_state (state_file (snd (api_set_allowlist_v1 payload f)))) ''alerts''"
    using assms by (simp add: api_set_allowlist_v1_def save_allowlist_def split: sum.splits)
  show "log_ok (load_state (state_file (snd (api_set_allowlist payload ts f)))) ''alerts''"
  proof (cases "model_validate payload")
    case (Inl e)
    with assms show ?thesis by (simp add: api_set_allowlist_def)
  next
    case (Inr a)
    let ?f1 = "save_allowlist a f"
    have s: "state_file ?f1 = state_file f" by (simp add: save_allowlist_def)
    show ?thesis
    proof (cases "action_log (load_state (state_file f)) ts ''allowlist_set''
                     (JObj [(''btc'', address_count (btc a)), (''bch'', address_count (bch a)),
                            (''dgb'', address_count (dgb a))])")
      case (Inl e)
      with Inr s assms show ?thesis by (simp add: api_set_allowlist_def Let_def)
    next
      case (Inr st)
      then have "moves [''actions''] (load_state (state_file f)) st"
        by (simp add: action_log_push push_moves)
      with assms have "log_ok st ''alerts''" by (auto dest: moves_log_ok)
      with Inr \<open>model_validate payload = Inr a\<close> s show ?thesis
        by (simp add: api_set_allowlist_def Let_def save_state_def)
    qed
  qed
qed

subsection \<open>The state file as \<^verbatim>\<open>GET /api/state\<close> serves it\<close>

lemma push_shaped:
  assumes "push s key item = Inr s'" "key = ''actions'' \<or> key = ''alerts''" "state_shaped s"
  shows "state_shaped s'"
proof -
  note r = push_result [OF assms(1)]
  from r have ok: "log_ok s key" by simp
  from push_ok [OF ok, of item] assms(1) obtain d' where d': "s' = JObj d'"
    and k: "map_of d' key = Some (JArr (last_200 (entries s key @ [item])))" by auto
  from d' k have l: "is_list (lookup s' key)" by simp
  from r have f: "\<And>k. k \<noteq> key \<Longrightarrow> lookup s' k = lookup s k" by simp
  from assms(2) show ?thesis
  proof
    assume a: "key = ''actions''"
    with f have "lookup s' ''last_run'' = lookup s ''last_run''"
      "lookup s' ''intel'' = lookup s ''intel''" "lookup s' ''alerts'' = lookup s ''alerts''"
      by simp_all
    with l a assms(3) show ?thesis by (simp add: state_shaped_def)
  next
    assume a: "key = ''alerts''"
    with f have "lookup s' ''last_run'' = lookup s ''last_run''"
      "lookup s' ''intel'' = lookup s ''intel''" "lookup s' ''actions'' = lookup s ''actions''"
      by simp_all
    with l a assms(3) show ?thesis by (simp add: state_shaped_def)
  qed
qed

lemma set_last_run_shaped:
  assumes "set_item s ''last_run'' x = Inr s'" "state_shaped s"
  shows "state_shaped s'"
proof -
  from assms(1) obtain d where "s = JObj d" "s' = JObj (dict_set d ''last_run'' x)"
    by (cases s) auto
  with assms(2) show ?thesis by (simp add: state_shaped_def map_of_dict_set)
qed

lemma set_intel_shaped:
  assumes "set_intel s k x = Inr s'" "state_shaped s"
  shows "state_shaped s'"
proof -
  from assms(1) obtain i i' where i: "set_item i k x = Inr i'" "set_item s ''intel'' i' = Inr s'"
    by (auto simp: set_intel_def split: sum.splits)
  from i(1) obtain d' where d': "i' = JObj d'" by (cases i) auto
  from i(2) obtain d where "s = JObj d" "s' = JObj (dict_set d ''intel'' i')" by (cases s) auto
  with d' assms(2) show ?thesis by (simp add: state_shaped_def map_of_dict_set)
qed

lemma record_intel_shaped:
  "record_intel cs s = Inl (e, s1) \<Longrightarrow> state_shaped s \<Longrightarrow> state_shaped s1"
  "record_intel cs s = Inr (rs, s2) \<Longrightarrow> state_shaped s \<Longrightarrow> state_shaped s2"
proof -
  assume "record_intel cs s = Inl (e, s1)" "state_shaped s"
  moreover from this(1) have "s1 = s \<or> (\<exists>x. set_intel s ''containers'' x = Inr s1)"
    by (auto simp: record_intel_def split: sum.splits)
  ultimately show "state_shaped s1" using set_intel_shaped by blast
next
  assume a: "record_intel cs s = Inr (rs, s2)" "state_shaped s"
  then obtain x y s1 where "set_intel s ''containers'' x = Inr s1" "set_intel s1 ''roles'' y = Inr s2"
    by (auto simp: record_intel_def split: sum.splits)
  with a(2) show "state_shaped s2" using set_intel_shaped by blast
qed

lemma stamp_last_run_shaped:
  "stamp_last_run ev r = (err, r') \<Longrightarrow> state_shaped (cur_state r) \<Longrightarrow> state_shaped (cur_state r')"
  by (auto simp: stamp_last_run_def split: sum.splits dest: set_last_run_shaped)

lemma restart_loop_shaped:
  "restart_loop ev a rs ks r = (err, r') \<Longrightarrow> state_shaped (cur_state r) \<Longrightarrow>
   state_shaped (cur_state r')"
proof (induction ks arbitrary: r)
  case Nil
  then show ?case by simp
next
  case (Cons k ks)
  show ?case
  proof (cases rule: restart_loop_Cons_cases [of ev a rs k ks r])
    case skip
    with Cons.prems Cons.IH [of r] show ?thesis by simp
  next
    case (raise e)
    with Cons.prems show ?thesis by auto
  next
    case (failsafe c s')
    from failsafe(6) Cons.prems(2) have "state_shaped s'"
      by (auto simp: alert_push dest: push_shaped)
    with failsafe(7) Cons.prems(1)
      Cons.IH [of "r\<lparr>cur_state := s', clock_reads := Suc (clock_reads r)\<rparr>"]
    show ?thesis by simp
  next
    case (restart_failed c i e)
    with Cons.prems show ?thesis by auto
  next
    case (log_failed c i e)
    with Cons.prems show ?thesis by auto
  next
    case (restarted c i s')
    from restarted(6) Cons.prems(2) have "state_shaped s'"
      by (auto simp: action_log_push dest: push_shaped)
    with restarted(7) Cons.prems(1)
      Cons.IH [of "r\<lparr>requests := requests r @ [Post_restart k i], cur_state := s',
                     clock_reads := Suc (clock_reads r)\<rparr>"]
    show ?thesis by simp
  qed
qed

lemma restart_loop_v1_shaped:
  "restart_loop_v1 ev rs ks r = (err, r') \<Longrightarrow> state_shaped (cur_state r) \<Longrightarrow>
   state_shaped (cur_state r')"
proof (induction ks arbitrary: r)
  case Nil
  then show ?case by simp
next
  case (Cons k ks)
  show ?case
  proof (cases rule: restart_loop_v1_Cons_cases [of ev rs k ks r])
    case skip
    with Cons.prems Cons.IH [of r] show ?thesis by simp
  next
    case (raise e)
    with Cons.prems show ?thesis by auto
  next
    case (restart_failed c i e)
    with Cons.prems show ?thesis by auto
  next
    case (log_failed c i e)
    with Cons.prems show ?thesis by auto
  next
    case (restarted c i s')
    from restarted(5) Cons.prems(2) have "state_shaped s'" by (auto dest: push_shaped)
    with restarted(6) Cons.prems(1)
      Cons.IH [of "r\<lparr>requests := requests r @ [Post_restart k i],
                     clock_reads := Suc (clock_reads r), cur_state := s'\<rparr>"]
    show ?thesis by simp
  qed
qed

lemma agent_tick_body_shaped:
  assumes "agent_tick_body ev a r0 = (err, r)" "state_shaped (cur_state r0)"
  shows "state_shaped (cur_state r)"
proof (cases rule: agent_tick_body_cases [of ev a r0])
  case (list_failed e)
  with assms show ?thesis by auto
next
  case (intel_failed cs e s)
  with assms record_intel_shaped(1) [of cs "cur_state r0" e s] show ?thesis by auto
next
  case (unarmed cs rs s2)
  with assms record_intel_shaped(2) [of cs "cur_state r0" rs s2]
    stamp_last_run_shaped [of ev "r0\<lparr>requests := requests r0 @ [Get_containers], cur_state := s2\<rparr>" err r]
  show ?thesis by auto
next
  case (loop_failed cs rs s2 e r3)
  with assms record_intel_shaped(2) [of cs "cur_state r0" rs s2]
    restart_loop_shaped [OF loop_failed(4)]
  show ?thesis by auto
next
  case (looped cs rs s2 r3)
  with assms record_intel_shaped(2) [of cs "cur_state r0" rs s2]
    restart_loop_shaped [OF looped(4)] stamp_last_run_shaped [of ev r3 err r]
  show ?thesis by auto
qed

lemma tick_body_shaped:
  assumes "tick_body ev r0 = (err, r)" "state_shaped (cur_state r0)"
  shows "state_shaped (cur_state r)"
proof (cases rule: tick_body_cases [of ev r0])
  case (list_failed e)
  with assms show ?thesis by auto
next
  case (intel_failed cs e s)
  with assms record_intel_shaped(1) [of cs "cur_state r0" e s] show ?thesis by auto
next
  case (unarmed cs rs s2)
  with assms record_intel_shaped(2) [of cs "cur_state r0" rs s2]
    stamp_last_run_shaped [of ev "r0\<lparr>requests := requests r0 @ [Get_containers], cur_state := s2\<rparr>" err r]
  show ?thesis by auto
next
  case (loop_failed cs rs s2 e r3)
  with assms record_intel_shaped(2) [of cs "cur_state r0" rs s2]
    restart_loop_v1_shaped [OF loop_failed(4)]
  show ?thesis by auto
next
  case (looped cs rs s2 r3)
  with assms record_intel_shaped(2) [of cs "cur_state r0" rs s2]
    restart_loop_v1_shaped [OF looped(4)] stamp_last_run_shaped [of ev r3 err r]
  show ?thesis by auto
qed

lemma agent_tick_shaped:
  assumes "state_shaped (load_state (state_file f))"
  shows "state_shaped (load_state (state_file (files (agent_tick ev f))))"
proof (cases rule: agent_tick_cases [of ev f])
  case (saved r)
  from agent_tick_body_shaped [OF saved(1)] assms have "state_shaped (cur_state r)" by simp
  with saved(2) show ?thesis by (simp add: save_state_def)
next
  case (logged e r s')
  from agent_tick_body_shaped [OF logged(1)] assms have "state_shaped (cur_state r)" by simp
  with logged(2) have "state_shaped s'" by (auto simp: alert_push dest: push_shaped)
  with logged(3) show ?thesis by (simp add: save_state_def)
next
  case (escaped e r e')
  with assms show ?thesis by simp
qed

lemma tick_shaped:
  assumes "state_shaped (load_state (state_file f))"
  shows "state_shaped (load_state (state_file (files (tick ev f))))"
proof (cases rule: tick_cases [of ev f])
  case (saved r)
  from tick_body_shaped [OF saved(1)] assms have "state_shaped (cur_state r)" by simp
  with saved(2) show ?thesis by (simp add: save_state_def)
next
  case (logged e r s')
  from tick_body_shaped [OF logged(1)] assms have "state_shaped (cur_state r)" by simp
  with logged(2) have "state_shaped s'" by (auto dest: push_shaped)
  with logged(3) show ?thesis by (simp add: save_state_def)
next
  case (escaped e r e')
  with assms show ?thesis by simp
qed

lemma api_set_allowlist_shaped:
  assumes "state_shaped (load_state (state_file f))"
  shows "state_shaped (load_state (state_file (snd (api_set_allowlist payload ts f))))"
    and "state_shaped (load_state (state_file (snd (api_set_allowlist_v1 payload f))))"
proof -
  show "state_shaped (load_state (state_file (snd (api_set_allowlist_v1 payload f))))"
    using assms by (simp add: api_set_allowlist_v1_def save_allowlist_def split: sum.splits)
  show "state_shaped (load_state (state_file (snd (api_set_allowlist payload ts f))))"
  proof (cases "model_validate payload")
    case (Inl e)
    with assms show ?thesis by (simp add: api_set_allowlist_def)
  next
    case (Inr a)
    have s: "state_file (save_allowlist a f) = state_file f" by (simp add: save_allowlist_def)
    show ?thesis
    proof (cases "action_log (load_state (state_file f)) ts ''allowlist_set''
                     (JObj [(''btc'', address_count (btc a)), (''bch'', address_count (bch a)),
                            (''dgb'', address_count (dgb a))])")
      case (Inl e)
      with Inr s assms show ?thesis by (simp add: api_set_allowlist_def Let_def)
    next
      case (Inr st)
      with assms have "state_shaped st" by (auto simp: action_log_push dest: push_shaped)
      with Inr \<open>model_validate payload = Inr a\<close> s show ?thesis
        by (simp add: api_set_allowlist_def Let_def save_state_def)
    qed
  qed
qed

lemma render_result: "render d = Inr d' \<Longrightarrow> d' = d \<and> finite_doc d"
  by (auto simp: render_def split: if_splits)

lemma api_state_result:
  assumes "api_state p = Inr d"
  shows "\<exists>st. p = Located st \<and> d = load_state st \<and> finite_doc d"
proof (cases p)
  case (Stat_raises e)
  with assms show ?thesis by (simp add: api_state_def load_state_call_def)
next
  case (Located st)
  with assms have "render (load_state st) = Inr d" by (simp add: api_state_def load_state_call_def)
  with Located show ?thesis by (auto dest: render_result)
qed

lemma finite_default_state: "finite_doc default_state"
  by (simp add: default_state_def)

lemma load_state_call_raises: "load_state_call p = Inl e \<longleftrightarrow> p = Stat_raises e"
  by (cases p) (simp_all add: load_state_call_def)

lemma api_state_answers:
  "api_state p = Inr d \<longleftrightarrow> (\<exists>st. p = Located st \<and> d = load_state st \<and> finite_doc d)"
  by (cases p) (auto simp: api_state_def load_state_call_def render_def)

text \<open>
  C8, as stated, fails in each of its parts. \<^verbatim>\<open>load_state\<close> raises when the existence test
  on the path raises, since the test stands before the \<^verbatim>\<open>try\<close>. \<^verbatim>\<open>GET /api/state\<close> fails on
  a state file that holds \<^verbatim>\<open>NaN\<close>: \<^verbatim>\<open>json.loads\<close> accepts it and the response encoder refuses
  it. And on a file holding \<^verbatim>\<open>{}\<close> the answer is \<^verbatim>\<open>{}\<close>, which has none of the four keys: a
  file that parses is returned as parsed, whatever its shape.
\<close>

theorem load_state_shape_counterexample:
  "load_state_call (Stat_raises (OSError ''[Errno 13] Permission denied'')) =
     Inl (OSError ''[Errno 13] Permission denied'') \<and>
   api_state (Located (Parsed (JObj [(''last_run'', JFloat NaN), (''intel'', JObj []),
                                     (''actions'', JArr []), (''alerts'', JArr [])]))) =
     Inl (ValueError ''Out of range float values are not JSON compliant'') \<and>
   api_state (Located (Parsed (JObj []))) = Inr (JObj []) \<and>
   \<not> state_shaped (JObj [])"
  by (simp add: load_state_call_def api_state_def render_def state_shaped_def)

text \<open>
  C8, amended. When the state file is absent, or its contents cannot be read and parsed as
  JSON, \<^verbatim>\<open>load_state\<close> returns the fresh default state, which is state-shaped; when the
  contents parse, it returns the parsed value as it is. What \<^verbatim>\<open>GET /api/state\<close> answers
  with, when it answers, is the value \<^verbatim>\<open>load_state\<close> returned, and that is state-shaped
  exactly when the file is absent, unparseable, or holds a state-shaped document. The
  agent keeps it so: a tick of either version and \<^verbatim>\<open>POST /api/allowlist\<close> leave a state file
  that loads to a state-shaped document when they found one.
\<close>

theorem load_state_default_or_parsed:
  "load_state_call (Located Absent) = Inr default_state \<and>
   load_state_call (Located Garbage) = Inr default_state \<and>
   load_state_call (Located (Parsed j)) = Inr j \<and>
   state_shaped default_state \<and>
   (api_state p = Inr d \<longrightarrow>
      load_state_call p = Inr d \<and>
      (state_shaped d \<longleftrightarrow>
         (p = Located Absent \<or> p = Located Garbage \<or>
          (\<exists>j'. p = Located (Parsed j') \<and> state_shaped j')))) \<and>
   (state_shaped (load_state (state_file f)) \<longrightarrow>
      state_shaped (load_state (state_file (files (agent_tick ev f)))) \<and>
      state_shaped (load_state (state_file (files (tick ev f)))) \<and>
      state_shaped (load_state (state_file (snd (api_set_allowlist payload ts f)))) \<and>
      state_shaped (load_state (state_file (snd (api_set_allowlist_v1 payload f)))))"
proof -
  have d: "state_shaped default_state" by (simp add: state_shaped_def default_state_def)
  have a: "api_state p = Inr d \<longrightarrow>
      load_state_call p = Inr d \<and>
      (state_shaped d \<longleftrightarrow>
         (p = Located Absent \<or> p = Located Garbage \<or>
          (\<exists>j'. p = Located (Parsed j') \<and> state_shaped j')))"
  proof
    assume "api_state p = Inr d"
    then obtain st where st: "p = Located st" "d = load_state st" by (auto dest: api_state_result)
    then have "load_state_call p = Inr d" by (simp add: load_state_call_def)
    moreover from st d have "state_shaped d \<longleftrightarrow>
         (p = Located Absent \<or> p = Located Garbage \<or>
          (\<exists>j'. p = Located (Parsed j') \<and> state_shaped j'))"
      by (cases st) simp_all
    ultimately show "load_state_call p = Inr d \<and>
      (state_shaped d \<longleftrightarrow>
         (p = Located Absent \<or> p = Located Garbage \<or>
          (\<exists>j'. p = Located (Parsed j') \<and> state_shaped j')))" by simp
  qed
  have i: "state_shaped (load_state (state_file f)) \<longrightarrow>
      state_shaped (load_state (state_file (files (agent_tick ev f)))) \<and>
      state_shaped (load_state (state_file (files (tick ev f)))) \<and>
      state_shaped (load_state (state_file (snd (api_set_allowlist payload ts f)))) \<and>
      state_shaped (load_state (state_file (snd (api_set_allowlist_v1 payload f))))"
    using agent_tick_shaped tick_shaped api_set_allowlist_shaped by blast
  have l: "load_state_call (Located Absent) = Inr default_state"
    "load_state_call (Located Garbage) = Inr default_state"
    "load_state_call (Located (Parsed j)) = Inr j"
    by (simp_all add: load_state_call_def)
  from l d a i show ?thesis by (intro conjI)
qed

theorem load_state_default_or_parsed_witness:
  "api_state (Located (state_file noted_files)) = Inr (load_state (state_file noted_files)) \<and>
   load_state_call (Located (state_file noted_files)) = Inr (load_state (state_file noted_files)) \<and>
   state_shaped (load_state (state_file noted_files)) \<and>
   state_shaped (load_state (state_file (files (agent_tick failing_proxy noted_files)))) \<and>
   state_shaped (load_state (state_file (files (tick failing_proxy noted_files)))) \<and>
   state_shaped (load_state (state_file (snd (api_set_allowlist (JObj []) 5 noted_files)))) \<and>
   state_shaped (load_state (state_file (snd (api_set_allowlist_v1 (JObj []) noted_files))))"
proof -
  have h1: "api_state (Located (state_file noted_files)) = Inr (load_state (state_file noted_files))"
    by (simp add: api_state_def load_state_call_def render_def noted_files_def)
  have h2: "state_shaped (load_state (state_file noted_files))"
    by (simp add: noted_files_def state_shaped_def)
  note th = load_state_default_or_parsed
    [where p = "Located (state_file noted_files)" and d = "load_state (state_file noted_files)"
       and f = noted_files and ev = failing_proxy and payload = "JObj []" and ts = 5]
  from th h1 have c1: "load_state_call (Located (state_file noted_files)) =
                         Inr (load_state (state_file noted_files))" by blast
  from th h2 have c2:
    "state_shaped (load_state (state_file (files (agent_tick failing_proxy noted_files))))"
    "state_shaped (load_state (state_file (files (tick failing_proxy noted_files))))"
    "state_shaped (load_state (state_file (snd (api_set_allowlist (JObj []) 5 noted_files))))"
    "state_shaped (load_state (state_file (snd (api_set_allowlist_v1 (JObj []) noted_files))))"
    by blast+
  from h1 h2 c1 c2 show ?thesis by (intro conjI)
qed

end
